theory Spec2Isabelle
  imports Main
begin

text \<open>
  A shallow embedding of the tree of RPKI certificates of \<open>src/PKITree.py\<close> and
  of \<open>get_cidr\<close> of \<open>src/imports.py\<close>: the tree builder
  (\<open>insert_node\<close>), the lookups, the classification predicates
  \<open>is_roa\<close>, \<open>is_rir_owned_rc\<close> and \<open>has_issued_roas\<close>, and the
  resource aggregator \<open>get_resource_list\<close>. An exception is a value
  \<open>Inl e\<close>; a loop that may run for ever is a partial function into
  \<open>option\<close>. The loader, \<open>get_root_dict\<close>,
  \<open>is_end_node_certificate\<close>, \<open>populate_resources\<close> and the two
  searches are not needed by the properties proved here and are left out.
\<close>

section \<open>Data model\<close>

text \<open>
  The records of the archive are parsed JSON. A JSON object is a Python \<open>dict\<close>
  with string keys, kept here as an association list in insertion order, each key
  once; \<open>map_of\<close> is the lookup. JSON numbers with a fraction are outside the
  model.
\<close>

datatype json =
    JNull
  | JBool bool
  | JInt int
  | JStr string
  | JList "json list"
  | JObj "(string \<times> json) list"

type_synonym jobj = "(string \<times> json) list"

text \<open>The exceptions the modelled code can raise.\<close>

datatype py_error = TypeError | KeyError | AttributeError | ValueError | UnboundLocalError

text \<open>What the code writes to the logger (and, for \<open>Printed\<close>, to standard output).\<close>

datatype log_event =
    NodeExists string
  | OwnParent string
  | LargeAsnRange json json
  | UnhandledType json
  | Printed json

text \<open>
  A prefix trie of the PyTricia library is kept as the sequence of its successful
  assignments \<open>pyt[pfx] = ski\<close>, oldest first.
\<close>

type_synonym trie = "(json \<times> string) list"

text \<open>
  Class \<open>PKITree\<close>. \<open>parent_to_child\<close> is a \<open>defaultdict(list)\<close> and
  \<open>child_to_parent\<close> a \<open>defaultdict(str)\<close>: reading a missing key with
  \<open>d[k]\<close> stores the default, reading it with \<open>d.get(k, None)\<close> does not.
\<close>

record pki_tree =
  parent_to_child :: "string \<rightharpoonup> string list"
  child_to_parent :: "string \<rightharpoonup> string"
  node_data :: "string \<rightharpoonup> jobj"
  resource_dict_pfx_v4 :: "string \<rightharpoonup> trie"
  resource_dict_pfx_v6 :: "string \<rightharpoonup> trie"
  resource_dict_asn :: "string \<rightharpoonup> json set"

definition init_tree :: pki_tree where
  "init_tree = \<lparr> parent_to_child = Map.empty, child_to_parent = Map.empty,
      node_data = Map.empty, resource_dict_pfx_v4 = Map.empty,
      resource_dict_pfx_v6 = Map.empty, resource_dict_asn = Map.empty \<rparr>"

section \<open>Tree builder\<close>

text \<open>
  \<open>insert_node\<close>, statement by statement. The result is the tree after the call
  together with the warnings logged by it.
\<close>

definition insert_node :: "pki_tree \<Rightarrow> string \<Rightarrow> string \<Rightarrow> jobj \<Rightarrow> pki_tree \<times> log_event list" where
  "insert_node t ski aki data =
     (if ski \<in> dom (node_data t) then (t, [NodeExists ski])
      else
        let t1 = t\<lparr>node_data := (node_data t)(ski \<mapsto> data)\<rparr>;
            t2 = (if ski \<noteq> aki
                  then t1\<lparr>parent_to_child := (parent_to_child t1)
                          (aki \<mapsto> (case parent_to_child t1 aki of None \<Rightarrow> [] | Some cs \<Rightarrow> cs) @ [ski])\<rparr>
                  else t1);
            cur = (case child_to_parent t2 ski of None \<Rightarrow> [] | Some p \<Rightarrow> p);
            t3 = t2\<lparr>child_to_parent := (child_to_parent t2)(ski \<mapsto> cur)\<rparr>
        in if length cur > 0 then (t3, [NodeExists ski])
           else
             let aki' = (if ski = aki then [] else aki);
                 t4 = t3\<lparr>child_to_parent := (child_to_parent t3)(ski \<mapsto> aki')\<rparr>;
                 t5 = (if aki' \<notin> dom (child_to_parent t4)
                       then t4\<lparr>child_to_parent := (child_to_parent t4)(aki' \<mapsto> [])\<rparr>
                       else t4)
             in (t5, if ski = aki then [OwnParent ski] else []))"

text \<open>A sequence of \<open>insert_node\<close> calls on a fresh tree, in order.\<close>

definition insert_all :: "pki_tree \<Rightarrow> (string \<times> string \<times> jobj) list \<Rightarrow> pki_tree" where
  "insert_all t calls = foldl (\<lambda>t (ski, aki, data). fst (insert_node t ski aki data)) t calls"

section \<open>Lookups\<close>

definition get_parent :: "pki_tree \<Rightarrow> string \<Rightarrow> string option" where
  "get_parent t ski = child_to_parent t ski"

definition get_children :: "pki_tree \<Rightarrow> string \<Rightarrow> string list option" where
  "get_children t ski = parent_to_child t ski"

definition get_data :: "pki_tree \<Rightarrow> string \<Rightarrow> jobj option" where
  "get_data t ski = node_data t ski"

text \<open>
  \<open>get_url\<close>. The f-string converts \<open>data["file"]\<close> with Python's \<open>str\<close>,
  which is the identity on a string; on any other value it is the parameter \<open>fmt\<close>.
\<close>

definition py_str :: "(json \<Rightarrow> string) \<Rightarrow> json \<Rightarrow> string" where
  "py_str fmt v = (case v of JStr s \<Rightarrow> s | _ \<Rightarrow> fmt v)"

definition get_url :: "(json \<Rightarrow> string) \<Rightarrow> pki_tree \<Rightarrow> string \<Rightarrow> py_error + string option" where
  "get_url fmt t ski =
     (case get_data t ski of
        None \<Rightarrow> Inr None
      | Some data \<Rightarrow>
          (case map_of data ''file'' of
             None \<Rightarrow> Inl KeyError
           | Some url \<Rightarrow> Inr (Some (''https://console.rpki-client.org/'' @ py_str fmt url @ ''.html''))))"

text \<open>
  \<open>str.replace(old, new)\<close> for a non-empty \<open>old\<close>: every occurrence, left to
  right, without overlap.
\<close>

function str_replace :: "string \<Rightarrow> string \<Rightarrow> string \<Rightarrow> string" where
  "str_replace old new [] = []"
| "str_replace old new (c # cs) =
     (if old \<noteq> [] \<and> take (length old) (c # cs) = old
      then new @ str_replace old new (drop (length old) (c # cs))
      else c # str_replace old new cs)"
  by pat_completeness auto
termination
  by (relation "measure (\<lambda>(old, new, s). length s)") auto

text \<open>
  \<open>get_ca_domain\<close> has no test for missing data: \<open>"carepository" in None\<close>
  raises \<open>TypeError\<close>. \<open>url.split("/")[0]\<close> is the text before the first slash.
\<close>

definition get_ca_domain :: "pki_tree \<Rightarrow> string \<Rightarrow> py_error + string" where
  "get_ca_domain t ski =
     (case get_data t ski of
        None \<Rightarrow> Inl TypeError
      | Some data \<Rightarrow>
          (case (if ''carepository'' \<in> fst ` set data then map_of data ''carepository''
                 else map_of data ''file'') of
             None \<Rightarrow> Inl KeyError
           | Some (JStr url) \<Rightarrow> Inr (takeWhile (\<lambda>c. c \<noteq> CHR ''/'') (str_replace ''rsync://'' [] url))
           | Some _ \<Rightarrow> Inl AttributeError))"

text \<open>
  \<open>get_path\<close>. The loop may run forever, so it is a partial function: \<open>None\<close>
  is "does not return". When \<open>get_parent\<close> answers \<open>None\<close> the comparison
  \<open>parent == ski\<close> is false, \<open>ski\<close> becomes \<open>None\<close> and the loop test
  \<open>len(ski)\<close> raises \<open>TypeError\<close>.
\<close>

partial_function (option) get_path_loop ::
  "pki_tree \<Rightarrow> string \<Rightarrow> string list \<Rightarrow> (py_error + string list) option" where
  "get_path_loop t ski path_list =
     (if length ski > 0 then
        (case get_parent t ski of
           None \<Rightarrow> Some (Inl TypeError)
         | Some parent \<Rightarrow>
             if parent = ski then Some (Inr (path_list @ [ski]))
             else get_path_loop t parent (path_list @ [ski]))
      else Some (Inr path_list))"

definition get_path :: "pki_tree \<Rightarrow> string \<Rightarrow> (py_error + string list) option" where
  "get_path t ski = get_path_loop t ski []"

section \<open>Classification predicates\<close>

text \<open>
  Python's \<open>==\<close> on JSON values: \<open>bool\<close> is a subtype of \<open>int\<close>
  (\<open>True == 1\<close>), lists are compared element by element, and dicts are equal when
  they have the same keys with equal values, in any order.
\<close>

fun py_num :: "json \<Rightarrow> int option" where
  "py_num (JInt n) = Some n"
| "py_num (JBool b) = Some (if b then 1 else 0)"
| "py_num _ = None"

fun py_eq :: "json \<Rightarrow> json \<Rightarrow> bool" where
  "py_eq (JList xs) (JList ys) = list_all2 py_eq xs ys"
| "py_eq (JObj kvs) (JObj kws) =
     (length kvs = length kws \<and>
      list_all (\<lambda>kv. case map_of kws (fst kv) of None \<Rightarrow> False | Some w \<Rightarrow> py_eq (snd kv) w) kvs)"
| "py_eq a b =
     (case (py_num a, py_num b) of (Some m, Some n) \<Rightarrow> m = n | _ \<Rightarrow> a = b)"

text \<open>\<open>is_roa\<close>: \<open>None\<close> without data, \<open>KeyError\<close> without a \<open>type\<close>.\<close>

definition is_roa :: "pki_tree \<Rightarrow> string \<Rightarrow> py_error + bool option" where
  "is_roa t ski =
     (case get_data t ski of
        None \<Rightarrow> Inr None
      | Some data \<Rightarrow>
          (case map_of data ''type'' of
             None \<Rightarrow> Inl KeyError
           | Some ty \<Rightarrow> Inr (Some (py_eq ty (JStr ''roa'')))))"

definition hit_list :: "json list" where
  "hit_list =
     [JObj [(''asrange'', JObj [(''min'', JInt 0), (''max'', JInt 4294967295)])],
      JObj [(''asrange'', JObj [(''min'', JInt 1), (''max'', JInt 4294967295)])],
      JObj [(''ip_prefix'', JStr ''0.0.0.0/0'')],
      JObj [(''ip_prefix'', JStr ''::/0'')],
      JObj [(''asid_inherit'', JBool True)],
      JObj [(''ip_inherit'', JBool True)],
      JObj [(''ip_inherit'', JBool True)]]"

text \<open>
  \<open>hit in data["subordinate_resources"]\<close>: a membership test by \<open>==\<close> on a list;
  on a dict the unhashable \<open>hit\<close> raises, on every other value \<open>in\<close> raises.
\<close>

fun hit_in :: "json list \<Rightarrow> json \<Rightarrow> py_error + bool" where
  "hit_in [] res = Inr False"
| "hit_in (hit # hits) res =
     (case res of
        JList xs \<Rightarrow> if list_ex (py_eq hit) xs then Inr True else hit_in hits res
      | _ \<Rightarrow> Inl TypeError)"

definition is_rir_owned_rc :: "pki_tree \<Rightarrow> string \<Rightarrow> py_error + bool option" where
  "is_rir_owned_rc t ski =
     (case get_data t ski of
        None \<Rightarrow> Inr None
      | Some data \<Rightarrow>
          if ''tal'' \<in> fst ` set data then Inr (Some True)
          else
            (case is_roa t ski of
               Inl e \<Rightarrow> Inl e
             | Inr (Some True) \<Rightarrow> Inr (Some False)
             | Inr _ \<Rightarrow>
                 (case map_of data ''subordinate_resources'' of
                    None \<Rightarrow> Inl KeyError
                  | Some res \<Rightarrow>
                      (case hit_in hit_list res of
                         Inl e \<Rightarrow> Inl e
                       | Inr b \<Rightarrow> Inr (Some b)))))"

text \<open>
  The loop of \<open>has_issued_roas\<close> over the children: \<open>child_data["type"]\<close>
  raises \<open>TypeError\<close> on a child without data and \<open>KeyError\<close> on data
  without a \<open>type\<close>.
\<close>

fun any_child_roa :: "pki_tree \<Rightarrow> string list \<Rightarrow> py_error + bool" where
  "any_child_roa t [] = Inr False"
| "any_child_roa t (child # rest) =
     (case get_data t child of
        None \<Rightarrow> Inl TypeError
      | Some child_data \<Rightarrow>
          (case map_of child_data ''type'' of
             None \<Rightarrow> Inl KeyError
           | Some ty \<Rightarrow> if py_eq ty (JStr ''roa'') then Inr True else any_child_roa t rest))"

definition has_issued_roas :: "pki_tree \<Rightarrow> string \<Rightarrow> py_error + bool option" where
  "has_issued_roas t ski =
     (case get_data t ski of
        None \<Rightarrow> Inr None
      | Some data \<Rightarrow>
          (case map_of data ''type'' of
             None \<Rightarrow> Inl KeyError
           | Some ty \<Rightarrow>
               if \<not> py_eq ty (JStr ''ca_cert'') then Inr (Some False)
               else
                 (case is_rir_owned_rc t ski of
                    Inl e \<Rightarrow> Inl e
                  | Inr (Some True) \<Rightarrow> Inr (Some False)
                  | Inr _ \<Rightarrow>
                      (case get_children t ski of
                         None \<Rightarrow> Inr (Some True)
                       | Some child_list \<Rightarrow>
                           (case any_child_roa t child_list of
                              Inl e \<Rightarrow> Inl e
                            | Inr b \<Rightarrow> Inr (Some b))))))"

section \<open>Resource aggregator\<close>

text \<open>
  Two libraries decide what the aggregator does on values this theory does not
  interpret, and are parameters of it:
  \<^item> \<open>lib_get_cidr\<close> is \<open>get_cidr(start_ip, end_ip)\<close> of \<open>imports.py\<close>
    applied to the JSON values of a range (the \<open>ipaddress\<close> module parses them);
  \<^item> \<open>lib_pyt_reject v6 pfx\<close> is the exception, if any, that PyTricia raises on
    \<open>pyt[pfx] = ski\<close> for the IPv4 trie (\<open>v6 = False\<close>) or the IPv6 trie.
\<close>

record py_lib =
  lib_get_cidr :: "json \<Rightarrow> json \<Rightarrow> py_error + json list"
  lib_pyt_reject :: "bool \<Rightarrow> json \<Rightarrow> py_error option"

text \<open>A \<open>for\<close> loop whose body may raise: the first exception ends it.\<close>

fun fold_err :: "('a \<Rightarrow> 's \<Rightarrow> py_error + 's) \<Rightarrow> 'a list \<Rightarrow> 's \<Rightarrow> py_error + 's" where
  "fold_err f [] s = Inr s"
| "fold_err f (x # xs) s = (case f x s of Inl e \<Rightarrow> Inl e | Inr s' \<Rightarrow> fold_err f xs s')"

text \<open>
  \<open>for x in v\<close>: the elements of a list, the keys of a dict, the characters of a
  string; nothing else is iterable.
\<close>

fun py_iter :: "json \<Rightarrow> py_error + json list" where
  "py_iter (JList xs) = Inr xs"
| "py_iter (JObj kvs) = Inr (map (\<lambda>kv. JStr (fst kv)) kvs)"
| "py_iter (JStr s) = Inr (map (\<lambda>c. JStr [c]) s)"
| "py_iter _ = Inl TypeError"

text \<open>\<open>v[key]\<close> with a string key: only a dict accepts it.\<close>

fun py_getitem :: "json \<Rightarrow> string \<Rightarrow> py_error + json" where
  "py_getitem (JObj kvs) key = (case map_of kvs key of None \<Rightarrow> Inl KeyError | Some v \<Rightarrow> Inr v)"
| "py_getitem _ key = Inl TypeError"

text \<open>\<open>":" in pfx\<close>.\<close>

fun py_contains_colon :: "json \<Rightarrow> py_error + bool" where
  "py_contains_colon (JStr s) = Inr (CHR '':'' \<in> set s)"
| "py_contains_colon (JList xs) = Inr (list_ex (py_eq (JStr '':'')) xs)"
| "py_contains_colon (JObj kvs) = Inr ('':'' \<in> fst ` set kvs)"
| "py_contains_colon _ = Inl TypeError"

text \<open>\<open>[x for x in range(start_asn, end_asn + 1)]\<close>: both bounds must be integers.\<close>

definition py_range_incl :: "json \<Rightarrow> json \<Rightarrow> py_error + json list" where
  "py_range_incl start_asn end_asn =
     (case (py_num start_asn, py_num end_asn) of
        (Some a, Some b) \<Rightarrow> Inr (map JInt [a..b])
      | _ \<Rightarrow> Inl TypeError)"

definition MAX_ASN_NUM :: int where
  "MAX_ASN_NUM = 4294967295"

text \<open>
  One \<open>k, v\<close> of \<open>resource.items()\<close> in \<open>extract_resources\<close>, on the local
  \<open>prefix_list\<close> and \<open>asn_list\<close> and the log.
\<close>

definition extract_item ::
  "py_lib \<Rightarrow> json \<Rightarrow> string \<times> json \<Rightarrow> json list \<times> json list \<times> log_event list
     \<Rightarrow> py_error + json list \<times> json list \<times> log_event list" where
  "extract_item lib resource kv acc =
     (case (kv, acc) of ((k, v), (prefix_list, asn_list, lg)) \<Rightarrow>
        if k \<in> set [''asid_inherit'', ''ip_inherit''] then Inr (prefix_list, asn_list, lg)
        else if k = ''ip_prefix'' then Inr (prefix_list @ [v], asn_list, lg)
        else if k = ''asid'' then Inr (prefix_list, asn_list @ [v], lg)
        else if k = ''ip_range'' then
          (case py_getitem v ''min'' of Inl e \<Rightarrow> Inl e | Inr start_ip \<Rightarrow>
           case py_getitem v ''max'' of Inl e \<Rightarrow> Inl e | Inr end_ip \<Rightarrow>
           case lib_get_cidr lib start_ip end_ip of Inl e \<Rightarrow> Inl e | Inr cidrs \<Rightarrow>
             Inr (prefix_list @ cidrs, asn_list, lg))
        else if k = ''asrange'' then
          (case py_getitem v ''min'' of Inl e \<Rightarrow> Inl e | Inr start_asn \<Rightarrow>
           case py_getitem v ''max'' of Inl e \<Rightarrow> Inl e | Inr end_asn \<Rightarrow>
             if py_eq end_asn (JInt MAX_ASN_NUM)
             then Inr (prefix_list, asn_list, lg @ [LargeAsnRange start_asn end_asn])
             else (case py_range_incl start_asn end_asn of Inl e \<Rightarrow> Inl e | Inr asns \<Rightarrow>
                     Inr (prefix_list, asn_list @ asns, lg)))
        else Inr (prefix_list, asn_list, lg @ [Printed resource]))"

text \<open>One \<open>resource\<close> of the list: \<open>resource.items()\<close> needs a dict.\<close>

definition extract_resource ::
  "py_lib \<Rightarrow> json \<Rightarrow> json list \<times> json list \<times> log_event list
     \<Rightarrow> py_error + json list \<times> json list \<times> log_event list" where
  "extract_resource lib resource acc =
     (case resource of
        JObj kvs \<Rightarrow> fold_err (extract_item lib resource) kvs acc
      | _ \<Rightarrow> Inl AttributeError)"

definition extract_resources ::
  "py_lib \<Rightarrow> json \<Rightarrow> py_error + json list \<times> json list \<times> log_event list" where
  "extract_resources lib resource_list =
     (case py_iter resource_list of
        Inl e \<Rightarrow> Inl e
      | Inr rs \<Rightarrow> fold_err (extract_resource lib) rs ([], [], []))"

text \<open>
  \<open>extract_vrps\<close>. Its \<open>asn_list\<close> is not a local: the name resolves to the
  \<open>asn_list\<close> of the enclosing \<open>get_resource_list\<close>, which the calls of
  \<open>append\<close> extend. The local \<open>origin_asn_list\<close> is returned as it was
  created, empty. The result is \<open>(prefix_list, origin_asn_list)\<close> and the
  enclosing \<open>asn_list\<close> after the call.
\<close>

definition extract_vrp :: "json \<Rightarrow> json list \<times> json list \<Rightarrow> py_error + json list \<times> json list" where
  "extract_vrp vrp acc =
     (case acc of (prefix_list, outer_asn_list) \<Rightarrow>
        case py_getitem vrp ''prefix'' of Inl e \<Rightarrow> Inl e | Inr pfx \<Rightarrow>
        case py_getitem vrp ''asid'' of Inl e \<Rightarrow> Inl e | Inr asid \<Rightarrow>
          Inr (prefix_list @ [pfx], outer_asn_list @ [asid]))"

definition extract_vrps ::
  "json \<Rightarrow> json list \<Rightarrow> py_error + (json list \<times> json list) \<times> json list" where
  "extract_vrps vrps outer_asn_list =
     (case py_iter vrps of
        Inl e \<Rightarrow> Inl e
      | Inr vs \<Rightarrow>
          (case fold_err extract_vrp vs ([], outer_asn_list) of
             Inl e \<Rightarrow> Inl e
           | Inr (prefix_list, outer_asn_list') \<Rightarrow> Inr ((prefix_list, []), outer_asn_list')))"

text \<open>
  The variables of \<open>get_resource_list\<close> that live across iterations of its
  \<open>while\<close> loop. \<open>curr_asn_list\<close> is \<open>None\<close> until its first assignment.
\<close>

record collect_state =
  queue :: "string list"
  pyt4 :: trie
  pyt6 :: trie
  asn_list :: "json list"
  curr_asn_list :: "json list option"
  ctr :: nat
  log :: "log_event list"

text \<open>One \<open>pfx\<close> of \<open>curr_pfx_list\<close>.\<close>

definition store_prefix :: "py_lib \<Rightarrow> string \<Rightarrow> json \<Rightarrow> trie \<times> trie \<Rightarrow> py_error + trie \<times> trie" where
  "store_prefix lib child pfx tries =
     (case tries of (p4, p6) \<Rightarrow>
        if py_eq pfx (JStr ''0.0.0.0/0'') \<or> py_eq pfx (JStr ''::/0'') then Inr (p4, p6)
        else
          (case py_contains_colon pfx of
             Inl e \<Rightarrow> Inl e
           | Inr True \<Rightarrow>
               (case lib_pyt_reject lib True pfx of
                  Some e \<Rightarrow> Inl e | None \<Rightarrow> Inr (p4, p6 @ [(pfx, child)]))
           | Inr False \<Rightarrow>
               (case lib_pyt_reject lib False pfx of
                  Some e \<Rightarrow> Inl e | None \<Rightarrow> Inr (p4 @ [(pfx, child)], p6))))"

text \<open>
  The end of the loop body, from \<open>for pfx in curr_pfx_list\<close> on. Reading
  \<open>curr_asn_list\<close> before any assignment raises \<open>UnboundLocalError\<close>.
\<close>

definition store_results ::
  "py_lib \<Rightarrow> pki_tree \<Rightarrow> bool \<Rightarrow> string \<Rightarrow> json list \<Rightarrow> collect_state \<Rightarrow> py_error + collect_state" where
  "store_results lib t recursive child curr_pfx_list st =
     (case fold_err (store_prefix lib child) curr_pfx_list (pyt4 st, pyt6 st) of
        Inl e \<Rightarrow> Inl e
      | Inr (p4, p6) \<Rightarrow>
          (case curr_asn_list st of
             None \<Rightarrow> Inl UnboundLocalError
           | Some cal \<Rightarrow>
               let st' = st\<lparr>pyt4 := p4, pyt6 := p6, asn_list := asn_list st @ cal\<rparr>
               in if recursive then
                    (case get_children t child of
                       None \<Rightarrow> Inr st'
                     | Some children \<Rightarrow>
                         if length children > 0 then Inr (st'\<lparr>queue := queue st' @ children\<rparr>)
                         else Inr st')
                  else Inr st'))"

text \<open>
  The loop body for the popped \<open>child\<close>. \<open>self.get_data(child).copy()\<close> comes
  before the test \<open>data is None\<close>, so missing data raises \<open>AttributeError\<close>;
  \<open>continue\<close> returns the state as it is.
\<close>

definition visit ::
  "py_lib \<Rightarrow> pki_tree \<Rightarrow> string \<Rightarrow> bool \<Rightarrow> string \<Rightarrow> collect_state \<Rightarrow> py_error + collect_state" where
  "visit lib t resource_type recursive child st =
     (case get_data t child of
        None \<Rightarrow> Inl AttributeError
      | Some data \<Rightarrow>
          (case map_of data ''type'' of
             None \<Rightarrow> Inl KeyError
           | Some ty \<Rightarrow>
               if py_eq ty (JStr ''roa'') then
                 if resource_type = ''ca_cert'' then Inr st
                 else
                   (case map_of data ''vrps'' of
                      None \<Rightarrow> Inl KeyError
                    | Some vrps \<Rightarrow>
                        (case extract_vrps vrps (asn_list st) of
                           Inl e \<Rightarrow> Inl e
                         | Inr ((pfxs, asns), outer) \<Rightarrow>
                             store_results lib t recursive child pfxs
                               (st\<lparr>asn_list := outer, curr_asn_list := Some asns\<rparr>)))
               else if py_eq ty (JStr ''ca_cert'') then
                 if resource_type = ''roa'' then Inr st
                 else
                   (case map_of data ''subordinate_resources'' of
                      None \<Rightarrow> Inl KeyError
                    | Some res \<Rightarrow>
                        (case extract_resources lib res of
                           Inl e \<Rightarrow> Inl e
                         | Inr (pfxs, asns, lg) \<Rightarrow>
                             store_results lib t recursive child pfxs
                               (st\<lparr>curr_asn_list := Some asns, log := log st @ lg\<rparr>)))
               else
                 store_results lib t recursive child []
                   (st\<lparr>log := log st @ [UnhandledType ty]\<rparr>)))"

text \<open>
  The \<open>while\<close> loop. A cycle in \<open>parent_to_child\<close> keeps the queue non-empty
  for ever, so the loop is a partial function; \<open>None\<close> is "does not return".
\<close>

partial_function (option) collect_loop ::
  "py_lib \<Rightarrow> pki_tree \<Rightarrow> string \<Rightarrow> bool \<Rightarrow> collect_state \<Rightarrow> (py_error + collect_state) option" where
  "collect_loop lib t resource_type recursive st =
     (case queue st of
        [] \<Rightarrow> Some (Inr st)
      | child # rest \<Rightarrow>
          (case visit lib t resource_type recursive child (st\<lparr>queue := rest, ctr := ctr st + 1\<rparr>) of
             Inl e \<Rightarrow> Some (Inl e)
           | Inr st' \<Rightarrow> collect_loop lib t resource_type recursive st'))"

text \<open>
  \<open>set(asn_list)\<close>: a list or a dict is unhashable; \<open>True\<close> and \<open>1\<close> are the
  same element, kept here as the integer.
\<close>

fun py_hashable :: "json \<Rightarrow> bool" where
  "py_hashable (JList xs) = False"
| "py_hashable (JObj kvs) = False"
| "py_hashable _ = True"

fun py_key :: "json \<Rightarrow> json" where
  "py_key (JBool b) = JInt (if b then 1 else 0)"
| "py_key v = v"

definition py_set :: "json list \<Rightarrow> py_error + json set" where
  "py_set xs = (if list_all py_hashable xs then Inr (set (map py_key xs)) else Inl TypeError)"

definition initial_state :: "pki_tree \<Rightarrow> string \<Rightarrow> bool \<Rightarrow> collect_state" where
  "initial_state t root recursive =
     \<lparr> queue = [root] @ (if recursive
                          then (case get_children t root of None \<Rightarrow> [] | Some children \<Rightarrow> children)
                          else []),
       pyt4 = [], pyt6 = [], asn_list = [], curr_asn_list = None, ctr = 0, log = [] \<rparr>"

text \<open>
  \<open>get_resource_list\<close>: the result \<open>(pyt4, pyt6, set(asn_list))\<close>, with what was
  logged on the way.
\<close>

definition get_resource_list ::
  "py_lib \<Rightarrow> pki_tree \<Rightarrow> string \<Rightarrow> string \<Rightarrow> bool
     \<Rightarrow> (py_error + (trie \<times> trie \<times> json set) \<times> log_event list) option" where
  "get_resource_list lib t root resource_type recursive =
     (case collect_loop lib t resource_type recursive (initial_state t root recursive) of
        None \<Rightarrow> None
      | Some (Inl e) \<Rightarrow> Some (Inl e)
      | Some (Inr st) \<Rightarrow>
          (case py_set (asn_list st) of
             Inl e \<Rightarrow> Some (Inl e)
           | Inr asns \<Rightarrow> Some (Inr ((pyt4 st, pyt6 st, asns), log st))))"

section \<open>CIDR range normaliser\<close>

text \<open>
  Modelled from the spec: \<open>get_cidr\<close> of \<open>imports.py\<close> is three calls into
  Python's standard \<open>ipaddress\<close> module (\<open>ip_address\<close>,
  \<open>summarize_address_range\<close> and \<open>str\<close> of a network), which is not under
  \<open>src/\<close>. The definitions of this section follow section 4.3 of the specification:
  IPv4 only, addresses as numbers below \<open>2 ^ 32\<close>, a network as its first address and
  its prefix length.

  \<open>largest_block first_ip last_ip k\<close> is the greatest \<open>n \<le> k\<close> for which the
  block of \<open>2 ^ n\<close> addresses at \<open>first_ip\<close> is aligned and does not exceed
  \<open>last_ip\<close> ("the largest aligned block starting at start that does not exceed
  end").
\<close>

fun largest_block :: "nat \<Rightarrow> nat \<Rightarrow> nat \<Rightarrow> nat" where
  "largest_block first_ip last_ip 0 = 0"
| "largest_block first_ip last_ip (Suc n) =
     (if 2 ^ Suc n dvd first_ip \<and> first_ip + 2 ^ Suc n - 1 \<le> last_ip then Suc n
      else largest_block first_ip last_ip n)"

text \<open>
  Modelled from the spec: \<open>ipaddress.summarize_address_range\<close>, "emit it, repeat on
  the remainder".
\<close>

function summarize_address_range :: "nat \<Rightarrow> nat \<Rightarrow> (nat \<times> nat) list" where
  "summarize_address_range first_ip last_ip =
     (if first_ip \<le> last_ip
      then (let n = largest_block first_ip last_ip 32
            in (first_ip, 32 - n) # summarize_address_range (first_ip + 2 ^ n) last_ip)
      else [])"
  by pat_completeness auto
termination
proof (relation "measure (\<lambda>(first_ip, last_ip). Suc last_ip - first_ip)", goal_cases)
  case 1
  show ?case by simp
next
  case (2 first_ip last_ip n)
  have "(0::nat) < 2 ^ n" by simp
  with 2 have "Suc last_ip - (first_ip + 2 ^ n) < Suc last_ip - first_ip" by arith
  then show ?case by simp
qed

declare summarize_address_range.simps [simp del]

text \<open>
  Modelled from the spec: \<open>ipaddress.ip_address\<close> on IPv4 text, four decimal octets
  separated by dots, each at most 255 and without a leading zero ("10.0.0.255").
  \<open>None\<close> is the \<open>ValueError\<close> of the library.
\<close>

fun split_on :: "char \<Rightarrow> string \<Rightarrow> string list" where
  "split_on d [] = [[]]"
| "split_on d (c # cs) =
     (if c = d then [] # split_on d cs
      else (case split_on d cs of [] \<Rightarrow> [[c]] | p # ps \<Rightarrow> (c # p) # ps))"

definition dec_digit :: "char \<Rightarrow> nat option" where
  "dec_digit c = (if c \<in> set ''0123456789'' then Some (of_char c - 48) else None)"

definition parse_octet :: "string \<Rightarrow> nat option" where
  "parse_octet s =
     (if s = [] \<or> length s > 3 \<or> (length s > 1 \<and> hd s = CHR ''0'') \<or> list_ex (\<lambda>c. dec_digit c = None) s
      then None
      else (let v = foldl (\<lambda>acc c. 10 * acc + the (dec_digit c)) 0 s
            in if v \<le> 255 then Some v else None))"

definition ip_address :: "string \<Rightarrow> nat option" where
  "ip_address s =
     (case map parse_octet (split_on CHR ''.'' s) of
        [Some a, Some b, Some c, Some d] \<Rightarrow> Some (a * 2 ^ 24 + b * 2 ^ 16 + c * 2 ^ 8 + d)
      | _ \<Rightarrow> None)"

text \<open>
  Modelled from the spec: \<open>str\<close> of an IPv4 network, the dotted first address, a
  slash and the prefix length ("10.0.0.0/24").
\<close>

function str_nat :: "nat \<Rightarrow> string" where
  "str_nat n =
     (if n < 10 then [''0123456789'' ! n]
      else str_nat (n div 10) @ [''0123456789'' ! (n mod 10)])"
  by pat_completeness auto
termination
proof (relation "measure (\<lambda>n. n)", goal_cases)
  case 1
  show ?case by simp
next
  case (2 n)
  then have "n div 10 < n" by simp
  then show ?case by simp
qed

declare str_nat.simps [simp del]

definition str_network :: "nat \<times> nat \<Rightarrow> string" where
  "str_network net =
     (case net of (addr, len) \<Rightarrow>
        str_nat (addr div 2 ^ 24) @ ''.'' @ str_nat (addr div 2 ^ 16 mod 256) @ ''.'' @
        str_nat (addr div 2 ^ 8 mod 256) @ ''.'' @ str_nat (addr mod 256) @ ''/'' @ str_nat len)"

text \<open>
  \<open>get_cidr(start_ip, end_ip)\<close> with both ends given, as every call in the
  repository gives them. The library raises \<open>ValueError\<close> on text that is not an
  address and on a range whose end is below its start.
\<close>

definition get_cidr :: "string \<Rightarrow> string \<Rightarrow> py_error + string list" where
  "get_cidr start_ip end_ip =
     (case (ip_address start_ip, ip_address end_ip) of
        (Some first_ip, Some last_ip) \<Rightarrow>
          if first_ip \<le> last_ip
          then Inr (map str_network (summarize_address_range first_ip last_ip))
          else Inl ValueError
      | _ \<Rightarrow> Inl ValueError)"

text \<open>The addresses of a network, and what makes a pair a CIDR block of IPv4.\<close>

definition cidr_addrs :: "nat \<times> nat \<Rightarrow> nat set" where
  "cidr_addrs net = {fst net ..< fst net + 2 ^ (32 - snd net)}"

definition valid_cidr :: "nat \<times> nat \<Rightarrow> bool" where
  "valid_cidr net \<longleftrightarrow>
     snd net \<le> 32 \<and> 2 ^ (32 - snd net) dvd fst net \<and> fst net + 2 ^ (32 - snd net) \<le> 2 ^ 32"

section \<open>Notions used by the statements and their proofs\<close>

text \<open>
  The invariant of the builder: an SKI whose recorded parent is not empty has node
  data. Under it the second test of \<open>insert_node\<close>
  (\<open>len(self.child_to_parent[ski]) > 0\<close>) never fires for a new SKI.
\<close>

definition wf_parents :: "pki_tree \<Rightarrow> bool" where
  "wf_parents t \<longleftrightarrow>
     (\<forall>s p. child_to_parent t s = Some p \<and> p \<noteq> [] \<longrightarrow> s \<in> dom (node_data t))"

text \<open>
  The parent chain of a non-empty SKI stays defined and reaches a node whose parent is
  empty or the node itself.
\<close>

inductive ends_at_root :: "pki_tree \<Rightarrow> string \<Rightarrow> bool" for t where
  parent_empty: "ski \<noteq> [] \<Longrightarrow> get_parent t ski = Some [] \<Longrightarrow> ends_at_root t ski"
| parent_self: "ski \<noteq> [] \<Longrightarrow> get_parent t ski = Some ski \<Longrightarrow> ends_at_root t ski"
| parent_step: "ski \<noteq> [] \<Longrightarrow> get_parent t ski = Some p \<Longrightarrow> p \<noteq> ski \<Longrightarrow>
                ends_at_root t p \<Longrightarrow> ends_at_root t ski"

code_pred ends_at_root .

text \<open>
  The nodes that \<open>get_resource_list\<close> leaves with \<open>continue\<close>: a ROA under
  \<open>resource_type = "ca_cert"\<close>, a CA certificate under \<open>resource_type = "roa"\<close>.
  Their children are not put on the queue.
\<close>

definition filtered_out :: "pki_tree \<Rightarrow> string \<Rightarrow> string \<Rightarrow> bool" where
  "filtered_out t resource_type ski =
     (case get_data t ski of
        None \<Rightarrow> False
      | Some data \<Rightarrow>
          (case map_of data ''type'' of
             None \<Rightarrow> False
           | Some ty \<Rightarrow>
               (py_eq ty (JStr ''roa'') \<and> resource_type = ''ca_cert'') \<or>
               (\<not> py_eq ty (JStr ''roa'') \<and> py_eq ty (JStr ''ca_cert'') \<and> resource_type = ''roa'')))"

text \<open>
  The SKIs that \<open>get_resource_list\<close> puts on its queue: \<open>root\<close>; when
  \<open>recursive\<close>, the children of \<open>root\<close> (queued before the loop) and the
  children of every queued node that is not left with \<open>continue\<close>.
\<close>

inductive visited :: "pki_tree \<Rightarrow> string \<Rightarrow> bool \<Rightarrow> string \<Rightarrow> string \<Rightarrow> bool"
  for t resource_type recursive root where
  visited_root: "visited t resource_type recursive root root"
| visited_first: "recursive \<Longrightarrow> get_children t root = Some cs \<Longrightarrow> c \<in> set cs \<Longrightarrow>
     visited t resource_type recursive root c"
| visited_child: "recursive \<Longrightarrow> visited t resource_type recursive root p \<Longrightarrow>
     \<not> filtered_out t resource_type p \<Longrightarrow> get_children t p = Some cs \<Longrightarrow> c \<in> set cs \<Longrightarrow>
     visited t resource_type recursive root c"

code_pred visited .

text \<open>The assignments held by the two tries together.\<close>

definition stored :: "trie \<times> trie \<Rightarrow> (json \<times> string) set" where
  "stored tries = set (fst tries) \<union> set (snd tries)"

text \<open>
  From the loop state \<open>st\<close> the loop returns \<open>fin\<close>, which then holds all of
  \<open>st\<close>'s results, and every SKI on the queue of \<open>st\<close> gets its turn in the
  loop body.
\<close>

definition covered ::
  "py_lib \<Rightarrow> pki_tree \<Rightarrow> string \<Rightarrow> bool \<Rightarrow> collect_state \<Rightarrow> collect_state \<Rightarrow> bool" where
  "covered lib t rt recursive st fin \<longleftrightarrow>
     set (asn_list st) \<subseteq> set (asn_list fin) \<and>
     stored (pyt4 st, pyt6 st) \<subseteq> stored (pyt4 fin, pyt6 fin) \<and>
     (\<forall>c \<in> set (queue st). \<exists>s1 s2. visit lib t rt recursive c s1 = Inr s2 \<and>
          collect_loop lib t rt recursive s2 = Some (Inr fin))"

text \<open>
  A ranking of the SKIs that \<open>parent_to_child\<close> respects: the rank of a parent
  is at least the number of its children plus their ranks. Ranks fall from a parent
  to each child, so no SKI is among its own descendants, and the queue of
  \<open>get_resource_list\<close>, weighed by rank, shrinks with every turn of the loop.
\<close>

definition children_ranked :: "pki_tree \<Rightarrow> (string \<Rightarrow> nat) \<Rightarrow> bool" where
  "children_ranked t W \<longleftrightarrow>
     (\<forall>p cs. get_children t p = Some cs \<longrightarrow> sum_list (map (\<lambda>c. Suc (W c)) cs) \<le> W p)"

subsection \<open>Example inputs\<close>

text \<open>
  The end-to-end scenario of the specification: root CA \<open>R\<close>, child CA \<open>C\<close>,
  ROA \<open>A\<close>.
\<close>

definition vrp_A :: json where
  "vrp_A = JObj [(''prefix'', JStr ''10.1.1.0/24''), (''asid'', JInt 65001)]"

definition data_A :: jobj where
  "data_A = [(''type'', JStr ''roa''), (''ski'', JStr ''A''), (''aki'', JStr ''C''),
             (''vrps'', JList [vrp_A])]"

definition scenario_tree :: pki_tree where
  "scenario_tree = insert_all init_tree
     [(''R'', [], [(''type'', JStr ''ca_cert''), (''ski'', JStr ''R''), (''tal'', JStr ''test''),
                   (''subordinate_resources'',
                      JList [JObj [(''ip_prefix'', JStr ''10.0.0.0/8'')], JObj [(''asid'', JInt 65000)]])]),
      (''C'', ''R'', [(''type'', JStr ''ca_cert''), (''ski'', JStr ''C''), (''aki'', JStr ''R''),
                   (''subordinate_resources'', JList [JObj [(''ip_prefix'', JStr ''10.1.0.0/16'')]])]),
      (''A'', ''C'', data_A)]"

text \<open>Two records that name each other as parent.\<close>

definition cyclic_tree :: pki_tree where
  "cyclic_tree = insert_all init_tree [(''A'', ''B'', []), (''B'', ''A'', [])]"

text \<open>One CA certificate with a real delegation, no \<open>tal\<close> and no children.\<close>

definition lone_ca :: pki_tree where
  "lone_ca = insert_all init_tree
     [(''X'', [], [(''type'', JStr ''ca_cert''), (''ski'', JStr ''X''),
                   (''subordinate_resources'', JList [JObj [(''ip_prefix'', JStr ''10.0.0.0/8'')]])])]"

text \<open>
  A root CA certificate \<open>R\<close> without resources and its child CA certificate
  \<open>X\<close> with a bounded and a ceiling-reaching ASN range; a ranking of the tree.
\<close>

definition bounded_range :: json where
  "bounded_range = JObj [(''min'', JInt 64512), (''max'', JInt 64514)]"

definition ceiling_range :: json where
  "ceiling_range = JObj [(''min'', JInt 0), (''max'', JInt 4294967295)]"

definition data_X :: jobj where
  "data_X = [(''type'', JStr ''ca_cert''), (''ski'', JStr ''X''),
             (''subordinate_resources'',
                JList [JObj [(''asrange'', bounded_range)], JObj [(''asrange'', ceiling_range)]])]"

definition asn_tree :: pki_tree where
  "asn_tree = insert_all init_tree
     [(''R'', [], [(''type'', JStr ''ca_cert''), (''ski'', JStr ''R''),
                   (''subordinate_resources'', JList [])]),
      (''X'', ''R'', data_X)]"

definition asn_rank :: "string \<Rightarrow> nat" where
  "asn_rank ski = (if ski = [] then 2 else if ski = ''R'' then 1 else 0)"

text \<open>
  Two CA certificates that name each other as parent, each with the bounded ASN range.
\<close>

definition data_cyc :: jobj where
  "data_cyc = [(''type'', JStr ''ca_cert''),
               (''subordinate_resources'', JList [JObj [(''asrange'', bounded_range)]])]"

definition asn_cycle :: pki_tree where
  "asn_cycle = insert_all init_tree [(''A'', ''B'', data_cyc), (''B'', ''A'', data_cyc)]"

text \<open>
  A library instance for the examples: a range given as IPv4 text goes through
  \<open>get_cidr\<close>, any other range is refused, and the tries accept every key.
\<close>

definition example_lib :: py_lib where
  "example_lib =
     \<lparr> lib_get_cidr = (\<lambda>start_ip end_ip.
          case (start_ip, end_ip) of
            (JStr s, JStr e) \<Rightarrow>
              (case get_cidr s e of Inl err \<Rightarrow> Inl err | Inr cidrs \<Rightarrow> Inr (map JStr cidrs))
          | _ \<Rightarrow> Inl ValueError),
       lib_pyt_reject = (\<lambda>v6 pfx. None) \<rparr>"

section \<open>Properties of the tree builder\<close>

lemma node_data_init: "node_data init_tree = Map.empty"
  by (simp add: init_tree_def)

lemma parent_to_child_init: "parent_to_child init_tree = Map.empty"
  by (simp add: init_tree_def)

lemma wf_parents_init: "wf_parents init_tree"
  by (simp add: wf_parents_def init_tree_def)

lemma insert_all_Nil: "insert_all t [] = t"
  by (simp add: insert_all_def)

lemma insert_all_Cons:
  "insert_all t ((ski, aki, data) # calls) = insert_all (fst (insert_node t ski aki data)) calls"
  by (simp add: insert_all_def)

lemma wf_parents_insert_node: "wf_parents t \<Longrightarrow> wf_parents (fst (insert_node t ski aki data))"
  unfolding wf_parents_def insert_node_def
  by (auto simp: Let_def split: option.splits if_splits)

lemma wf_parents_insert_all: "wf_parents t \<Longrightarrow> wf_parents (insert_all t calls)"
proof (induction calls arbitrary: t)
  case Nil
  then show ?case by (simp add: insert_all_Nil)
next
  case (Cons c calls)
  obtain s a d where c: "c = (s, a, d)" by (cases c)
  from Cons.prems have "wf_parents (fst (insert_node t s a d))"
    by (rule wf_parents_insert_node)
  then show ?case unfolding c insert_all_Cons by (rule Cons.IH)
qed

lemma dom_node_data_insert_node:
  "dom (node_data (fst (insert_node t ski aki data))) = insert ski (dom (node_data t))"
  unfolding insert_node_def
  by (auto simp: Let_def split: option.splits if_splits)

lemma dom_node_data_insert_all:
  "dom (node_data (insert_all t calls)) = dom (node_data t) \<union> fst ` set calls"
proof (induction calls arbitrary: t)
  case Nil
  show ?case by (simp add: insert_all_Nil)
next
  case (Cons c calls)
  obtain s a d where c: "c = (s, a, d)" by (cases c)
  show ?case unfolding c insert_all_Cons Cons.IH dom_node_data_insert_node by auto
qed

lemma dom_parent_insert_node:
  "dom (child_to_parent t) \<subseteq> dom (child_to_parent (fst (insert_node t ski aki data)))"
  unfolding insert_node_def
  by (auto simp: Let_def split: option.splits if_splits)

lemma dom_parent_insert_all:
  "dom (child_to_parent t) \<subseteq> dom (child_to_parent (insert_all t calls))"
proof (induction calls arbitrary: t)
  case Nil
  show ?case by (simp add: insert_all_Nil)
next
  case (Cons c calls)
  obtain s a d where c: "c = (s, a, d)" by (cases c)
  show ?case
    unfolding c insert_all_Cons
    using Cons.IH[of "fst (insert_node t s a d)"] dom_parent_insert_node[of t s a d]
    by blast
qed

lemma dom_children_insert_node:
  "dom (parent_to_child (fst (insert_node t ski aki data))) \<subseteq> insert aki (dom (parent_to_child t))"
  unfolding insert_node_def
  by (auto simp: Let_def split: option.splits if_splits)

lemma dom_children_insert_all:
  "dom (parent_to_child (insert_all t calls))
     \<subseteq> dom (parent_to_child t) \<union> (\<lambda>c. fst (snd c)) ` set calls"
proof (induction calls arbitrary: t)
  case Nil
  show ?case by (simp add: insert_all_Nil)
next
  case (Cons c calls)
  obtain s a d where c: "c = (s, a, d)" by (cases c)
  show ?case
    unfolding c insert_all_Cons
    using Cons.IH[of "fst (insert_node t s a d)"] dom_children_insert_node[of t s a d]
    by auto
qed

lemma fresh_insert_parent:
  "wf_parents t \<Longrightarrow> ski \<notin> dom (node_data t) \<Longrightarrow>
     get_parent (fst (insert_node t ski aki data)) ski = Some (if aki = ski then [] else aki)"
  unfolding wf_parents_def insert_node_def get_parent_def
  by (auto simp: Let_def split: option.splits if_splits)

lemma fresh_insert_aki_entry:
  "wf_parents t \<Longrightarrow> ski \<notin> dom (node_data t) \<Longrightarrow>
     aki \<in> dom (child_to_parent (fst (insert_node t ski aki data)))"
  unfolding wf_parents_def insert_node_def
  by (auto simp: Let_def split: option.splits if_splits)

text \<open>
  C5. After any sequence of \<open>insert_node\<close> calls on a fresh tree, inserting an SKI
  that none of them inserted makes \<open>get_parent\<close> of it the given \<open>aki\<close>, or the
  empty string when \<open>aki\<close> is the SKI itself.
\<close>

theorem fresh_insert_parent_of:
  "ski \<notin> fst ` set calls \<Longrightarrow>
   get_parent (fst (insert_node (insert_all init_tree calls) ski aki data)) ski
     = Some (if aki = ski then [] else aki)"
  by (rule fresh_insert_parent)
     (simp_all add: wf_parents_insert_all wf_parents_init dom_node_data_insert_all node_data_init)

theorem fresh_insert_parent_of_witness:
  "''C'' \<notin> fst ` set [(''R'', [], []::jobj)] \<and>
   get_parent (fst (insert_node (insert_all init_tree [(''R'', [], [])]) ''C'' ''R'' [])) ''C'' = Some ''R'' \<and>
   ''S'' \<notin> fst ` set [(''R'', [], []::jobj)] \<and>
   get_parent (fst (insert_node (insert_all init_tree [(''R'', [], [])]) ''S'' ''S'' [])) ''S'' = Some []"
proof -
  have c: "''C'' \<notin> fst ` set [(''R'', [], []::jobj)]" by simp
  have s: "''S'' \<notin> fst ` set [(''R'', [], []::jobj)]" by simp
  from fresh_insert_parent_of[OF c, of "''R''" "[]"] fresh_insert_parent_of[OF s, of "''S''" "[]"]
  show ?thesis by simp
qed

text \<open>
  C6. A call of \<open>insert_node\<close> with an SKI that already has node data returns the
  tree as it was, whatever the \<open>aki\<close> and the data: all maps are unchanged.
\<close>

theorem duplicate_insert_unchanged:
  "ski \<in> dom (node_data t) \<Longrightarrow> fst (insert_node t ski aki data) = t"
  by (simp add: insert_node_def)

theorem duplicate_insert_unchanged_witness:
  "''R'' \<in> dom (node_data scenario_tree) \<and>
   fst (insert_node scenario_tree ''R'' ''Z'' [(''type'', JStr ''roa'')]) = scenario_tree"
proof -
  have r: "''R'' \<in> dom (node_data scenario_tree)"
    by (simp add: scenario_tree_def dom_node_data_insert_all)
  from duplicate_insert_unchanged[OF r] r show ?thesis by simp
qed

text \<open>
  C7, as stated, fails: a call rejected as a duplicate leaves its \<open>aki\<close> without an
  entry in the parent map.
\<close>

theorem duplicate_call_aki_no_entry:
  "get_parent (insert_all init_tree [(''A'', ''B'', []), (''A'', ''C'', [])]) ''C'' = None"
  by (simp add: insert_all_def insert_node_def init_tree_def get_parent_def Let_def)

text \<open>
  C7, amended. After any sequence of \<open>insert_node\<close> calls on a fresh tree, the
  \<open>aki\<close> of every call whose SKI no earlier call inserted (a call that is not
  rejected as a duplicate) has an entry in the parent map: \<open>get_parent\<close> of it is a
  string, also when no record of that \<open>aki\<close> was inserted.
\<close>

theorem accepted_aki_has_parent_entry:
  assumes fresh: "ski \<notin> fst ` set before"
  shows "\<exists>p. get_parent (insert_all init_tree (before @ (ski, aki, data) # after)) aki = Some p"
proof -
  let ?t = "insert_all init_tree before"
  have "aki \<in> dom (child_to_parent (fst (insert_node ?t ski aki data)))"
    by (rule fresh_insert_aki_entry)
       (simp_all add: wf_parents_insert_all wf_parents_init dom_node_data_insert_all
          node_data_init fresh)
  moreover have "insert_all init_tree (before @ (ski, aki, data) # after)
     = insert_all (fst (insert_node ?t ski aki data)) after"
    by (simp add: insert_all_def)
  ultimately show ?thesis
    using dom_parent_insert_all[of "fst (insert_node ?t ski aki data)" after]
    by (auto simp: get_parent_def)
qed

theorem accepted_aki_has_parent_entry_witness:
  "''A'' \<notin> fst ` set [(''R'', [], []::jobj)] \<and>
   (\<exists>p. get_parent (insert_all init_tree ([(''R'', [], [])] @ (''A'', ''B'', []) # [(''A'', ''C'', [])])) ''B''
          = Some p) \<and>
   get_data (insert_all init_tree ([(''R'', [], [])] @ (''A'', ''B'', []) # [(''A'', ''C'', [])])) ''B'' = None"
proof -
  have a: "''A'' \<notin> fst ` set [(''R'', [], []::jobj)]" by simp
  have "get_data (insert_all init_tree ([(''R'', [], [])] @ (''A'', ''B'', []) # [(''A'', ''C'', [])])) ''B'' = None"
    by (simp add: insert_all_def insert_node_def init_tree_def get_data_def Let_def)
  with accepted_aki_has_parent_entry[OF a, of "''B''" "[]" "[(''A'', ''C'', [])]"] a
  show ?thesis by blast
qed

section \<open>Properties of the lookups\<close>

lemma cyclic_parents:
  "get_parent cyclic_tree ''A'' = Some ''B''" "get_parent cyclic_tree ''B'' = Some ''A''"
  by (simp_all add: cyclic_tree_def insert_all_def insert_node_def init_tree_def get_parent_def Let_def)

lemma scenario_parents:
  "get_parent scenario_tree ''A'' = Some ''C''" "get_parent scenario_tree ''C'' = Some ''R''"
  "get_parent scenario_tree ''R'' = Some []"
  by (simp_all add: scenario_tree_def insert_all_def insert_node_def init_tree_def get_parent_def Let_def)

text \<open>On the two-node cycle no call of the loop returns.\<close>

lemma cyclic_no_return:
  assumes ret: "get_path_loop t ski acc = Some r"
  shows "t = cyclic_tree \<longrightarrow> ski \<noteq> ''A'' \<and> ski \<noteq> ''B''"
proof (rule get_path_loop.raw_induct
    [where P = "\<lambda>t ski acc r. t = cyclic_tree \<longrightarrow> ski \<noteq> ''A'' \<and> ski \<noteq> ''B''", OF _ ret],
    goal_cases)
  case prems: (1 loop t ski acc r)
  note IH = prems(1) and body = prems(2)
  show ?case
  proof (intro impI)
    assume t: "t = cyclic_tree"
    show "ski \<noteq> ''A'' \<and> ski \<noteq> ''B''"
    proof (rule ccontr)
      assume "\<not> (ski \<noteq> ''A'' \<and> ski \<noteq> ''B'')"
      then consider (a) "ski = ''A''" | (b) "ski = ''B''" by blast
      then show False
      proof cases
        case a
        with body t have "loop cyclic_tree ''B'' (acc @ [''A'']) = Some r"
          by (simp add: cyclic_parents)
        from IH[OF this] show False by simp
      next
        case b
        with body t have "loop cyclic_tree ''A'' (acc @ [''B'']) = Some r"
          by (simp add: cyclic_parents)
        from IH[OF this] show False by simp
      qed
    qed
  qed
qed

text \<open>
  C2, as stated, fails: \<open>insert_node("A", "B", d); insert_node("B", "A", d)\<close> makes
  each of \<open>A\<close> and \<open>B\<close> the parent of the other, every \<open>get_parent\<close> on the
  chain is defined, and \<open>get_path("A")\<close> does not return.
\<close>

theorem get_path_cycle_diverges:
  "get_parent cyclic_tree ''A'' = Some ''B'' \<and> get_parent cyclic_tree ''B'' = Some ''A'' \<and>
   get_path cyclic_tree ''A'' = None"
proof -
  have "get_path cyclic_tree ''A'' = None"
  proof (cases "get_path cyclic_tree ''A''")
    case None
    then show ?thesis .
  next
    case (Some r)
    then show ?thesis
      using cyclic_no_return[of cyclic_tree "''A''" "[]" r] by (simp add: get_path_def)
  qed
  then show ?thesis by (simp add: cyclic_parents)
qed

lemma get_path_loop_ends:
  "ends_at_root t ski \<Longrightarrow>
   \<exists>rest. get_path_loop t ski acc = Some (Inr (acc @ ski # rest)) \<and>
          (get_parent t (last (ski # rest)) = Some [] \<or>
           get_parent t (last (ski # rest)) = Some (last (ski # rest)))"
proof (induction arbitrary: acc rule: ends_at_root.induct)
  case (parent_empty ski)
  then have "get_path_loop t ski acc = Some (Inr (acc @ [ski]))"
    by (simp add: get_path_loop.simps[of t ski] get_path_loop.simps[of t "[]"])
  with parent_empty show ?case by simp
next
  case (parent_self ski)
  then have "get_path_loop t ski acc = Some (Inr (acc @ [ski]))"
    by (simp add: get_path_loop.simps[of t ski])
  with parent_self show ?case by simp
next
  case (parent_step ski p)
  from parent_step.IH[of "acc @ [ski]"] obtain rest where
    r: "get_path_loop t p (acc @ [ski]) = Some (Inr ((acc @ [ski]) @ p # rest))"
       "get_parent t (last (p # rest)) = Some [] \<or> get_parent t (last (p # rest)) = Some (last (p # rest))"
    by blast
  from parent_step.hyps have "get_path_loop t ski acc = get_path_loop t p (acc @ [ski])"
    by (simp add: get_path_loop.simps[of t ski])
  with r show ?case by (intro exI[of _ "p # rest"]) simp
qed

text \<open>
  C2, amended. For every non-empty SKI whose parent chain stays defined and reaches a
  node with an empty or self-referential parent, \<open>get_path\<close> returns; the list is
  not empty, starts at the SKI and ends at a node whose parent is empty or the node
  itself.
\<close>

theorem get_path_reaches_root:
  "ends_at_root t ski \<Longrightarrow>
   \<exists>path. get_path t ski = Some (Inr path) \<and> path \<noteq> [] \<and> hd path = ski \<and>
          (get_parent t (last path) = Some [] \<or> get_parent t (last path) = Some (last path))"
  using get_path_loop_ends[of t ski "[]"] unfolding get_path_def by auto

theorem get_path_reaches_root_witness:
  "ends_at_root scenario_tree ''A'' \<and>
   (\<exists>path. get_path scenario_tree ''A'' = Some (Inr path) \<and> path \<noteq> [] \<and> hd path = ''A'' \<and>
      (get_parent scenario_tree (last path) = Some [] \<or>
       get_parent scenario_tree (last path) = Some (last path))) \<and>
   get_path scenario_tree ''A'' = Some (Inr [''A'', ''C'', ''R''])"
proof -
  have "ends_at_root scenario_tree ''R''"
    by (rule ends_at_root.parent_empty) (simp_all add: scenario_parents)
  then have "ends_at_root scenario_tree ''C''"
    by (rule ends_at_root.parent_step[rotated 3]) (simp_all add: scenario_parents)
  then have e: "ends_at_root scenario_tree ''A''"
    by (rule ends_at_root.parent_step[rotated 3]) (simp_all add: scenario_parents)
  have "get_path scenario_tree ''A'' = Some (Inr [''A'', ''C'', ''R''])"
    by (simp add: get_path_def scenario_parents get_path_loop.simps[of _ "''A''"]
        get_path_loop.simps[of _ "''C''"] get_path_loop.simps[of _ "''R''"]
        get_path_loop.simps[of _ "[]"])
  with get_path_reaches_root[OF e] e show ?thesis by blast
qed

text \<open>
  C4, as stated, fails. On an SKI without node data \<open>get_ca_domain\<close> raises
  \<open>TypeError\<close>, and so does \<open>get_path\<close> when the SKI has no entry in the
  parent map; and \<open>get_children\<close> of an SKI that was only named as a parent is the
  list of the children recorded for it.
\<close>

theorem unknown_ski_lookup_raises:
  "get_data init_tree ''X'' = None \<and> get_ca_domain init_tree ''X'' = Inl TypeError \<and>
   get_path init_tree ''X'' = Some (Inl TypeError) \<and>
   get_data (insert_all init_tree [(''A'', ''B'', [])]) ''B'' = None \<and>
   get_children (insert_all init_tree [(''A'', ''B'', [])]) ''B'' = Some [''A'']"
  by (simp add: get_data_def get_ca_domain_def get_path_def get_path_loop.simps[of _ "''X''"]
       get_parent_def get_children_def insert_all_def insert_node_def init_tree_def Let_def)

text \<open>
  C4, amended. After any sequence of \<open>insert_node\<close> calls on a fresh tree, for an
  SKI that none of them inserted: \<open>get_data\<close> and \<open>get_url\<close> return
  \<open>None\<close>; \<open>get_parent\<close> returns \<open>None\<close> or the empty string; and
  \<open>get_children\<close> returns \<open>None\<close> when no call named the SKI as its
  \<open>aki\<close>.
\<close>

theorem unknown_ski_lookups:
  assumes ski: "ski \<notin> fst ` set calls"
  shows "get_data (insert_all init_tree calls) ski = None \<and>
         get_url fmt (insert_all init_tree calls) ski = Inr None \<and>
         (get_parent (insert_all init_tree calls) ski = None \<or>
          get_parent (insert_all init_tree calls) ski = Some []) \<and>
         (ski \<notin> (\<lambda>c. fst (snd c)) ` set calls \<longrightarrow>
            get_children (insert_all init_tree calls) ski = None)"
proof -
  let ?t = "insert_all init_tree calls"
  have nd: "ski \<notin> dom (node_data ?t)"
    using ski by (simp add: dom_node_data_insert_all node_data_init)
  then have d: "get_data ?t ski = None" by (auto simp: get_data_def)
  have "wf_parents ?t" by (simp add: wf_parents_insert_all wf_parents_init)
  with nd have p: "get_parent ?t ski = None \<or> get_parent ?t ski = Some []"
    unfolding wf_parents_def get_parent_def by (cases "child_to_parent ?t ski") auto
  have c: "ski \<notin> (\<lambda>c. fst (snd c)) ` set calls \<longrightarrow> get_children ?t ski = None"
    using dom_children_insert_all[of init_tree calls]
    by (auto simp: get_children_def parent_to_child_init)
  from d p c show ?thesis by (simp add: get_url_def)
qed

theorem unknown_ski_lookups_witness:
  "''Z'' \<notin> fst ` set [(''A'', ''B'', []::jobj)] \<and>
   get_data (insert_all init_tree [(''A'', ''B'', [])]) ''Z'' = None \<and>
   get_url (\<lambda>v. []) (insert_all init_tree [(''A'', ''B'', [])]) ''Z'' = Inr None \<and>
   get_parent (insert_all init_tree [(''A'', ''B'', [])]) ''Z'' = None \<and>
   get_children (insert_all init_tree [(''A'', ''B'', [])]) ''Z'' = None \<and>
   ''B'' \<notin> fst ` set [(''A'', ''B'', []::jobj)] \<and>
   get_data (insert_all init_tree [(''A'', ''B'', [])]) ''B'' = None \<and>
   get_parent (insert_all init_tree [(''A'', ''B'', [])]) ''B'' = Some []"
proof -
  have z: "''Z'' \<notin> fst ` set [(''A'', ''B'', []::jobj)]" by simp
  have b: "''B'' \<notin> fst ` set [(''A'', ''B'', []::jobj)]" by simp
  have pz: "get_parent (insert_all init_tree [(''A'', ''B'', [])]) ''Z'' = None"
    and pb: "get_parent (insert_all init_tree [(''A'', ''B'', [])]) ''B'' = Some []"
    by (simp_all add: insert_all_def insert_node_def init_tree_def get_parent_def Let_def)
  from unknown_ski_lookups[OF z, of "\<lambda>v. []"] unknown_ski_lookups[OF b, of "\<lambda>v. []"] pz pb z b
  show ?thesis by simp
qed

section \<open>Properties of the classification predicates\<close>

text \<open>
  C3. The claim is what the docstring of \<open>has_issued_roas\<close> says ("True if the SKI
  has issued ROAs, False otherwise"), and the code falls short of it: when the SKI has
  no entry in \<open>parent_to_child\<close> the branch \<open>if child_list is None: return True\<close>
  answers true. Here a CA certificate that is not RIR-owned and has no children at all
  is reported to have issued ROAs.
\<close>

theorem has_issued_roas_childless_ca:
  "get_children lone_ca ''X'' = None \<and> is_rir_owned_rc lone_ca ''X'' = Inr (Some False) \<and>
   has_issued_roas lone_ca ''X'' = Inr (Some True)"
  by (simp add: lone_ca_def insert_all_def insert_node_def init_tree_def Let_def
      has_issued_roas_def is_rir_owned_rc_def is_roa_def get_data_def get_children_def hit_list_def)

section \<open>Properties of the resource aggregator\<close>

lemma py_eq_JStr [simp]: "py_eq v (JStr s) \<longleftrightarrow> v = JStr s"
  by (cases v) auto

lemma py_eq_JInt: "py_eq v (JInt n) \<longleftrightarrow> py_num v = Some n"
  by (cases v) auto

declare py_eq.simps [simp del]

subsection \<open>Loops that may raise\<close>

lemma fold_err_mono:
  assumes step: "\<And>x s s'. f x s = Inr s' \<Longrightarrow> g s \<subseteq> g s' \<and> h s \<subseteq> h s'"
  shows "fold_err f xs s = Inr s' \<Longrightarrow> g s \<subseteq> g s' \<and> h s \<subseteq> h s'"
proof (induction xs arbitrary: s)
  case Nil
  then show ?case by simp
next
  case (Cons x xs)
  then obtain s1 where s1: "f x s = Inr s1" "fold_err f xs s1 = Inr s'"
    by (auto split: sum.splits)
  from step[OF s1(1)] Cons.IH[OF s1(2)] show ?case by blast
qed

lemma fold_err_visits:
  assumes step: "\<And>x s s'. f x s = Inr s' \<Longrightarrow> g s \<subseteq> g s' \<and> h s \<subseteq> h s'"
  shows "fold_err f xs s = Inr s' \<Longrightarrow> x \<in> set xs \<Longrightarrow>
           \<exists>s1 s2. f x s1 = Inr s2 \<and> g s2 \<subseteq> g s' \<and> h s2 \<subseteq> h s'"
proof (induction xs arbitrary: s)
  case Nil
  then show ?case by simp
next
  case (Cons y ys)
  then obtain s1 where s1: "f y s = Inr s1" "fold_err f ys s1 = Inr s'"
    by (auto split: sum.splits)
  show ?case
  proof (cases "x = y")
    case True
    have "g s1 \<subseteq> g s' \<and> h s1 \<subseteq> h s'" using step s1(2) by (rule fold_err_mono)
    with s1(1) True show ?thesis by blast
  next
    case False
    with Cons.prems have "x \<in> set ys" by simp
    from Cons.IH[OF s1(2) this] show ?thesis .
  qed
qed

subsection \<open>The two extractors and the stores\<close>

lemma extract_vrp_grows:
  "extract_vrp vrp acc = Inr acc' \<Longrightarrow>
     set (fst acc) \<subseteq> set (fst acc') \<and> set (snd acc) \<subseteq> set (snd acc')"
  by (cases acc) (auto simp: extract_vrp_def split: sum.splits)

lemma extract_vrp_adds:
  "extract_vrp vrp acc = Inr acc' \<Longrightarrow>
     \<exists>pfx asid. py_getitem vrp ''prefix'' = Inr pfx \<and> py_getitem vrp ''asid'' = Inr asid \<and>
        pfx \<in> set (fst acc') \<and> asid \<in> set (snd acc')"
  by (cases acc) (auto simp: extract_vrp_def split: sum.splits)

lemma extract_vrps_Inr:
  assumes "extract_vrps vrps outer = Inr ((pfxs, asns), outer')"
  shows "\<exists>vs. py_iter vrps = Inr vs \<and> fold_err extract_vrp vs ([], outer) = Inr (pfxs, outer') \<and> asns = []"
  using assms by (auto simp: extract_vrps_def split: sum.splits)

lemma extract_vrps_result:
  assumes ex: "extract_vrps vrps outer = Inr ((pfxs, asns), outer')"
  shows "asns = []" and "set outer \<subseteq> set outer'"
    and "py_iter vrps = Inr vs \<Longrightarrow> vrp \<in> set vs \<Longrightarrow>
        \<exists>pfx asid. py_getitem vrp ''prefix'' = Inr pfx \<and> py_getitem vrp ''asid'' = Inr asid \<and>
          pfx \<in> set pfxs \<and> asid \<in> set outer'"
proof -
  from extract_vrps_Inr[OF ex] obtain vs0 where vs0: "py_iter vrps = Inr vs0"
    and fold: "fold_err extract_vrp vs0 ([], outer) = Inr (pfxs, outer')" and e: "asns = []"
    by blast
  show "asns = []" by (rule e)
  have "set (fst ([], outer)) \<subseteq> set (fst (pfxs, outer')) \<and> set (snd ([]::json list, outer)) \<subseteq> set (snd (pfxs, outer'))"
    using extract_vrp_grows fold by (rule fold_err_mono)
  then show "set outer \<subseteq> set outer'" by simp
  assume "py_iter vrps = Inr vs" and mem: "vrp \<in> set vs"
  with vs0 have "vrp \<in> set vs0" by simp
  with extract_vrp_grows fold
  have "\<exists>s1 s2. extract_vrp vrp s1 = Inr s2 \<and> set (fst s2) \<subseteq> set (fst (pfxs, outer')) \<and>
           set (snd s2) \<subseteq> set (snd (pfxs, outer'))"
    by (rule fold_err_visits)
  then obtain s1 s2 where s: "extract_vrp vrp s1 = Inr s2" "set (fst s2) \<subseteq> set pfxs"
      "set (snd s2) \<subseteq> set outer'" by auto
  from extract_vrp_adds[OF s(1)] obtain pfx asid where
    "py_getitem vrp ''prefix'' = Inr pfx" "py_getitem vrp ''asid'' = Inr asid"
    "pfx \<in> set (fst s2)" "asid \<in> set (snd s2)" by blast
  with s(2,3) show "\<exists>pfx asid. py_getitem vrp ''prefix'' = Inr pfx \<and> py_getitem vrp ''asid'' = Inr asid \<and>
          pfx \<in> set pfxs \<and> asid \<in> set outer'" by blast
qed

lemma store_prefix_grows:
  "store_prefix lib child pfx tries = Inr tries' \<Longrightarrow>
     stored tries \<subseteq> stored tries' \<and> ({}::unit set) \<subseteq> {}"
  by (cases tries) (auto simp: stored_def store_prefix_def split: sum.splits bool.splits option.splits if_splits)

lemma store_prefix_adds:
  "store_prefix lib child pfx tries = Inr tries' \<Longrightarrow>
     pfx = JStr ''0.0.0.0/0'' \<or> pfx = JStr ''::/0'' \<or> (pfx, child) \<in> stored tries'"
  by (cases tries) (auto simp: stored_def store_prefix_def split: sum.splits bool.splits option.splits if_splits)

lemma store_results_Inr:
  assumes "store_results lib t recursive child pfxs st = Inr st'"
  shows "\<exists>p4 p6 cal. fold_err (store_prefix lib child) pfxs (pyt4 st, pyt6 st) = Inr (p4, p6) \<and>
     curr_asn_list st = Some cal \<and> pyt4 st' = p4 \<and> pyt6 st' = p6 \<and>
     asn_list st' = asn_list st @ cal \<and> set (queue st) \<subseteq> set (queue st') \<and>
     (recursive \<longrightarrow> (\<forall>cs. get_children t child = Some cs \<longrightarrow> set cs \<subseteq> set (queue st')))"
  using assms unfolding store_results_def Let_def
  by (auto split: sum.splits option.splits if_splits)

lemma store_results_result:
  assumes sr: "store_results lib t recursive child pfxs st = Inr st'"
  shows "stored (pyt4 st, pyt6 st) \<subseteq> stored (pyt4 st', pyt6 st')"
    and "pfx \<in> set pfxs \<Longrightarrow> pfx = JStr ''0.0.0.0/0'' \<or> pfx = JStr ''::/0'' \<or>
         (pfx, child) \<in> stored (pyt4 st', pyt6 st')"
    and "\<exists>cal. curr_asn_list st = Some cal \<and> asn_list st' = asn_list st @ cal"
    and "set (queue st) \<subseteq> set (queue st')"
    and "recursive \<Longrightarrow> get_children t child = Some cs \<Longrightarrow> set cs \<subseteq> set (queue st')"
proof -
  from store_results_Inr[OF sr] obtain cal where
    fold: "fold_err (store_prefix lib child) pfxs (pyt4 st, pyt6 st) = Inr (pyt4 st', pyt6 st')"
    and cal: "curr_asn_list st = Some cal" "asn_list st' = asn_list st @ cal"
    and q: "set (queue st) \<subseteq> set (queue st')"
    and ch: "recursive \<longrightarrow> (\<forall>cs. get_children t child = Some cs \<longrightarrow> set cs \<subseteq> set (queue st'))"
    by blast
  from cal show "\<exists>cal. curr_asn_list st = Some cal \<and> asn_list st' = asn_list st @ cal" by blast
  from q show "set (queue st) \<subseteq> set (queue st')" .
  from ch show "recursive \<Longrightarrow> get_children t child = Some cs \<Longrightarrow> set cs \<subseteq> set (queue st')" by blast
  have "stored (pyt4 st, pyt6 st) \<subseteq> stored (pyt4 st', pyt6 st') \<and> ({}::unit set) \<subseteq> {}"
    using store_prefix_grows fold by (rule fold_err_mono)
  then show "stored (pyt4 st, pyt6 st) \<subseteq> stored (pyt4 st', pyt6 st')" by simp
  assume "pfx \<in> set pfxs"
  with store_prefix_grows fold
  have "\<exists>s1 s2. store_prefix lib child pfx s1 = Inr s2 \<and> stored s2 \<subseteq> stored (pyt4 st', pyt6 st') \<and> ({}::unit set) \<subseteq> {}"
    by (rule fold_err_visits)
  then obtain s1 s2 where s: "store_prefix lib child pfx s1 = Inr s2"
     "stored s2 \<subseteq> stored (pyt4 st', pyt6 st')" by blast
  from store_prefix_adds[OF s(1)] s(2)
  show "pfx = JStr ''0.0.0.0/0'' \<or> pfx = JStr ''::/0'' \<or> (pfx, child) \<in> stored (pyt4 st', pyt6 st')"
    by blast
qed

lemma extract_item_asrange_max:
  assumes "py_getitem v ''min'' = Inr lo" "py_getitem v ''max'' = Inr hi"
    and "py_num hi = Some MAX_ASN_NUM"
  shows "extract_item lib r (''asrange'', v) (pl, al, lg) = Inr (pl, al, lg @ [LargeAsnRange lo hi])"
  using assms by (simp add: extract_item_def py_eq_JInt)

lemma extract_item_asrange_expand:
  assumes "py_getitem v ''min'' = Inr lo" "py_getitem v ''max'' = Inr hi"
    and "py_num lo = Some a" "py_num hi = Some b" "b \<noteq> MAX_ASN_NUM"
  shows "extract_item lib r (''asrange'', v) (pl, al, lg) = Inr (pl, al @ map JInt [a..b], lg)"
  using assms by (simp add: extract_item_def py_eq_JInt py_range_incl_def)

lemma extract_item_grows:
  "extract_item lib r kv acc = Inr acc' \<Longrightarrow>
     set (fst (snd acc)) \<subseteq> set (fst (snd acc')) \<and> ({}::unit set) \<subseteq> {}"
  unfolding extract_item_def
  by (cases kv; cases acc) (auto split: sum.splits if_splits)

lemma extract_resource_grows:
  assumes "extract_resource lib r acc = Inr acc'"
  shows "set (fst (snd acc)) \<subseteq> set (fst (snd acc')) \<and> ({}::unit set) \<subseteq> {}"
proof -
  from assms obtain kvs where r: "r = JObj kvs"
    and fold: "fold_err (extract_item lib r) kvs acc = Inr acc'"
    by (cases r) (auto simp: extract_resource_def)
  show ?thesis using extract_item_grows fold by (rule fold_err_mono)
qed

lemma extract_resources_asrange:
  assumes ex: "extract_resources lib res = Inr (pfxs, asns, lg)"
    and rs: "py_iter res = Inr rs" and r: "JObj kvs \<in> set rs" and kv: "(''asrange'', v) \<in> set kvs"
    and v: "py_getitem v ''min'' = Inr lo" "py_getitem v ''max'' = Inr hi"
    and n: "py_num lo = Some a" "py_num hi = Some b" "b \<noteq> MAX_ASN_NUM"
    and x: "a \<le> x" "x \<le> b"
  shows "JInt x \<in> set asns"
proof -
  from ex rs have fold: "fold_err (extract_resource lib) rs ([], [], []) = Inr (pfxs, asns, lg)"
    by (simp add: extract_resources_def)
  from extract_resource_grows fold r
  have "\<exists>s1 s2. extract_resource lib (JObj kvs) s1 = Inr s2 \<and>
          set (fst (snd s2)) \<subseteq> set (fst (snd (pfxs, asns, lg))) \<and> ({}::unit set) \<subseteq> {}"
    by (rule fold_err_visits)
  then obtain s1 s2 where o: "extract_resource lib (JObj kvs) s1 = Inr s2"
    and o2: "set (fst (snd s2)) \<subseteq> set asns" by auto
  from o have ifold: "fold_err (extract_item lib (JObj kvs)) kvs s1 = Inr s2"
    by (simp add: extract_resource_def)
  from extract_item_grows ifold kv
  have "\<exists>s3 s4. extract_item lib (JObj kvs) (''asrange'', v) s3 = Inr s4 \<and>
          set (fst (snd s4)) \<subseteq> set (fst (snd s2)) \<and> ({}::unit set) \<subseteq> {}"
    by (rule fold_err_visits)
  then obtain s3 s4 where i: "extract_item lib (JObj kvs) (''asrange'', v) s3 = Inr s4"
    and i2: "set (fst (snd s4)) \<subseteq> set (fst (snd s2))" by auto
  obtain pl al lg' where s3: "s3 = (pl, al, lg')" by (cases s3)
  from i extract_item_asrange_expand[OF v n, of lib "JObj kvs" pl al lg']
  have "s4 = (pl, al @ map JInt [a..b], lg')" by (simp add: s3)
  with x have "JInt x \<in> set (fst (snd s4))" by simp
  with i2 o2 show ?thesis by blast
qed

subsection \<open>The loop body and the loop\<close>

lemma visit_Inr:
  assumes v: "visit lib t rt recursive c st = Inr st'"
  obtains (skip) "filtered_out t rt c" "st' = st"
  | (roa) data vrps pfxs asns outer where
      "get_data t c = Some data" "map_of data ''type'' = Some (JStr ''roa'')" "rt \<noteq> ''ca_cert''"
      "map_of data ''vrps'' = Some vrps"
      "extract_vrps vrps (asn_list st) = Inr ((pfxs, asns), outer)"
      "store_results lib t recursive c pfxs (st\<lparr>asn_list := outer, curr_asn_list := Some asns\<rparr>) = Inr st'"
  | (ca) data res pfxs asns lg where
      "get_data t c = Some data" "map_of data ''type'' = Some (JStr ''ca_cert'')" "rt \<noteq> ''roa''"
      "map_of data ''subordinate_resources'' = Some res"
      "extract_resources lib res = Inr (pfxs, asns, lg)"
      "store_results lib t recursive c pfxs (st\<lparr>curr_asn_list := Some asns, log := log st @ lg\<rparr>) = Inr st'"
  | (other) data ty where
      "get_data t c = Some data" "map_of data ''type'' = Some ty"
      "ty \<noteq> JStr ''roa''" "ty \<noteq> JStr ''ca_cert''"
      "store_results lib t recursive c [] (st\<lparr>log := log st @ [UnhandledType ty]\<rparr>) = Inr st'"
proof -
  from v obtain data where d: "get_data t c = Some data"
    by (auto simp: visit_def split: option.splits)
  from v d obtain ty where ty: "map_of data ''type'' = Some ty"
    by (auto simp: visit_def split: option.splits)
  consider (r) "ty = JStr ''roa''" | (c) "ty = JStr ''ca_cert''"
    | (o) "ty \<noteq> JStr ''roa''" "ty \<noteq> JStr ''ca_cert''" by blast
  then show thesis
  proof cases
    case r
    show thesis
    proof (cases "rt = ''ca_cert''")
      case True
      with v d ty r have "st' = st" by (simp add: visit_def)
      moreover from d ty r True have "filtered_out t rt c" by (simp add: filtered_out_def)
      ultimately show thesis using skip by blast
    next
      case False
      with v d ty r obtain vrps where vr: "map_of data ''vrps'' = Some vrps"
        by (auto simp: visit_def split: option.splits)
      with v d ty r False obtain pfxs asns outer where
        "extract_vrps vrps (asn_list st) = Inr ((pfxs, asns), outer)"
        "store_results lib t recursive c pfxs (st\<lparr>asn_list := outer, curr_asn_list := Some asns\<rparr>) = Inr st'"
        by (auto simp: visit_def split: sum.splits)
      with d ty r False vr show thesis using roa by blast
    qed
  next
    case c
    show thesis
    proof (cases "rt = ''roa''")
      case True
      with v d ty c have "st' = st" by (simp add: visit_def)
      moreover from d ty c True have "filtered_out t rt c" by (simp add: filtered_out_def)
      ultimately show thesis using skip by blast
    next
      case False
      with v d ty c obtain res where rs: "map_of data ''subordinate_resources'' = Some res"
        by (auto simp: visit_def split: option.splits)
      with v d ty c False obtain pfxs asns lg where
        "extract_resources lib res = Inr (pfxs, asns, lg)"
        "store_results lib t recursive c pfxs (st\<lparr>curr_asn_list := Some asns, log := log st @ lg\<rparr>) = Inr st'"
        by (auto simp: visit_def split: sum.splits)
      with d ty c False rs show thesis using ca by blast
    qed
  next
    case o
    with v d ty have "store_results lib t recursive c [] (st\<lparr>log := log st @ [UnhandledType ty]\<rparr>) = Inr st'"
      by (simp add: visit_def)
    with d ty o show thesis using other by blast
  qed
qed

lemma visit_grows:
  assumes v: "visit lib t rt recursive c st = Inr st'"
  shows "set (asn_list st) \<subseteq> set (asn_list st')"
    and "stored (pyt4 st, pyt6 st) \<subseteq> stored (pyt4 st', pyt6 st')"
    and "set (queue st) \<subseteq> set (queue st')"
proof -
  have "set (asn_list st) \<subseteq> set (asn_list st') \<and>
        stored (pyt4 st, pyt6 st) \<subseteq> stored (pyt4 st', pyt6 st') \<and>
        set (queue st) \<subseteq> set (queue st')"
    using v
  proof (cases rule: visit_Inr)
    case skip
    then show ?thesis by simp
  next
    case (roa data vrps pfxs asns outer)
    from extract_vrps_result(2)[OF roa(5)] store_results_result(3)[OF roa(6)]
    have "set (asn_list st) \<subseteq> set (asn_list st')" by auto
    moreover from store_results_result(1)[OF roa(6)]
    have "stored (pyt4 st, pyt6 st) \<subseteq> stored (pyt4 st', pyt6 st')" by simp
    moreover from store_results_result(4)[OF roa(6)]
    have "set (queue st) \<subseteq> set (queue st')" by simp
    ultimately show ?thesis by blast
  next
    case (ca data res pfxs asns lg)
    from store_results_result(3)[OF ca(6)]
    have "set (asn_list st) \<subseteq> set (asn_list st')" by auto
    moreover from store_results_result(1)[OF ca(6)]
    have "stored (pyt4 st, pyt6 st) \<subseteq> stored (pyt4 st', pyt6 st')" by simp
    moreover from store_results_result(4)[OF ca(6)]
    have "set (queue st) \<subseteq> set (queue st')" by simp
    ultimately show ?thesis by blast
  next
    case (other data ty)
    from store_results_result(3)[OF other(5)]
    have "set (asn_list st) \<subseteq> set (asn_list st')" by auto
    moreover from store_results_result(1)[OF other(5)]
    have "stored (pyt4 st, pyt6 st) \<subseteq> stored (pyt4 st', pyt6 st')" by simp
    moreover from store_results_result(4)[OF other(5)]
    have "set (queue st) \<subseteq> set (queue st')" by simp
    ultimately show ?thesis by blast
  qed
  then show "set (asn_list st) \<subseteq> set (asn_list st')"
    and "stored (pyt4 st, pyt6 st) \<subseteq> stored (pyt4 st', pyt6 st')"
    and "set (queue st) \<subseteq> set (queue st')" by blast+
qed

lemma store_results_queue:
  assumes "store_results lib t recursive child pfxs st = Inr st'"
  shows "queue st' = (if recursive then (case get_children t child of
                         None \<Rightarrow> queue st | Some cs \<Rightarrow> queue st @ cs) else queue st)"
  using assms unfolding store_results_def Let_def
  by (auto split: sum.splits option.splits if_splits)

text \<open>The queue after the loop body: only the children of a node that is not skipped are added.\<close>

lemma visit_queue:
  assumes v: "visit lib t rt recursive c st = Inr st'"
  shows "queue st' = (if recursive \<and> \<not> filtered_out t rt c
                      then (case get_children t c of None \<Rightarrow> queue st | Some cs \<Rightarrow> queue st @ cs)
                      else queue st)"
  using v
proof (cases rule: visit_Inr)
  case skip
  then show ?thesis by simp
next
  case (roa data vrps pfxs asns outer)
  from roa(1,2,3) have "\<not> filtered_out t rt c" by (simp add: filtered_out_def)
  with store_results_queue[OF roa(6)] show ?thesis by (simp split: option.splits)
next
  case (ca data res pfxs asns lg)
  from ca(1,2,3) have "\<not> filtered_out t rt c" by (simp add: filtered_out_def)
  with store_results_queue[OF ca(6)] show ?thesis by (simp split: option.splits)
next
  case (other data ty)
  from other(1-4) have "\<not> filtered_out t rt c" by (simp add: filtered_out_def)
  with store_results_queue[OF other(5)] show ?thesis by (simp split: option.splits)
qed

lemma visit_enqueues:
  assumes v: "visit lib t rt recursive c st = Inr st'" and "recursive"
    and "\<not> filtered_out t rt c" and "get_children t c = Some cs"
  shows "set cs \<subseteq> set (queue st')"
  using v
proof (cases rule: visit_Inr)
  case skip
  with assms show ?thesis by simp
next
  case (roa data vrps pfxs asns outer)
  from store_results_result(5)[OF roa(6) assms(2,4)] show ?thesis .
next
  case (ca data res pfxs asns lg)
  from store_results_result(5)[OF ca(6) assms(2,4)] show ?thesis .
next
  case (other data ty)
  from store_results_result(5)[OF other(5) assms(2,4)] show ?thesis .
qed

lemma collect_loop_covered_aux:
  assumes ret: "collect_loop lib t rt recursive st = Some r"
  shows "collect_loop lib t rt recursive st = Some r \<and>
         (\<forall>fin. r = Inr fin \<longrightarrow> covered lib t rt recursive st fin)"
proof (rule collect_loop.raw_induct
    [where P = "\<lambda>lib t rt recursive st r. collect_loop lib t rt recursive st = Some r \<and>
         (\<forall>fin. r = Inr fin \<longrightarrow> covered lib t rt recursive st fin)", OF _ ret], goal_cases)
  case prems: (1 loop lib t rt recursive st r)
  note IH = prems(1) and body = prems(2)
  show ?case
  proof (cases "queue st")
    case Nil
    with body have r: "r = Inr st" by simp
    from Nil have "collect_loop lib t rt recursive st = Some (Inr st)"
      by (subst collect_loop.simps) simp
    with r Nil show ?thesis by (simp add: covered_def)
  next
    case (Cons c0 rest)
    let ?st0 = "st\<lparr>queue := rest, ctr := ctr st + 1\<rparr>"
    show ?thesis
    proof (cases "visit lib t rt recursive c0 ?st0")
      case (Inl e)
      with body Cons have r: "r = Inl e" by simp
      from Cons Inl have "collect_loop lib t rt recursive st = Some (Inl e)"
        by (subst collect_loop.simps) simp
      with r show ?thesis by simp
    next
      case (Inr s2)
      with body Cons have "loop lib t rt recursive s2 = Some r" by simp
      from IH[OF this] have l2: "collect_loop lib t rt recursive s2 = Some r"
        and c2: "\<And>fin. r = Inr fin \<Longrightarrow> covered lib t rt recursive s2 fin" by blast+
      from Cons Inr l2 have l: "collect_loop lib t rt recursive st = Some r"
        by (subst collect_loop.simps) simp
      have "covered lib t rt recursive st fin" if fin: "r = Inr fin" for fin
      proof -
        note g = visit_grows[OF Inr]
        from c2[OF fin] have cov: "covered lib t rt recursive s2 fin" .
        from g(1) cov have a: "set (asn_list st) \<subseteq> set (asn_list fin)"
          unfolding covered_def by simp blast
        from g(2) cov have b: "stored (pyt4 st, pyt6 st) \<subseteq> stored (pyt4 fin, pyt6 fin)"
          unfolding covered_def by simp blast
        have "\<exists>s1 s2. visit lib t rt recursive c s1 = Inr s2 \<and>
                collect_loop lib t rt recursive s2 = Some (Inr fin)" if c: "c \<in> set (queue st)" for c
        proof (cases "c = c0")
          case True
          with Inr l2 fin show ?thesis by blast
        next
          case False
          with c Cons have "c \<in> set rest" by simp
          with g(3) have "c \<in> set (queue s2)" by auto
          with cov show ?thesis unfolding covered_def by blast
        qed
        with a b show ?thesis unfolding covered_def by blast
      qed
      with l show ?thesis by blast
    qed
  qed
qed

lemma collect_loop_covered:
  "collect_loop lib t rt recursive st = Some (Inr fin) \<Longrightarrow> covered lib t rt recursive st fin"
  using collect_loop_covered_aux by blast

lemma covered_queue:
  assumes cov: "covered lib t rt recursive st fin" and c: "c \<in> set (queue st)"
  shows "\<exists>s1 s2. visit lib t rt recursive c s1 = Inr s2 \<and> covered lib t rt recursive s2 fin"
proof -
  from cov c obtain s1 s2 where v: "visit lib t rt recursive c s1 = Inr s2"
    and l: "collect_loop lib t rt recursive s2 = Some (Inr fin)"
    unfolding covered_def by blast
  from collect_loop_covered[OF l] v show ?thesis by blast
qed

lemma queue_initial:
  "queue (initial_state t root recursive) =
     root # (if recursive then (case get_children t root of None \<Rightarrow> [] | Some cs \<Rightarrow> cs) else [])"
  unfolding initial_state_def by simp

lemma root_queued: "root \<in> set (queue (initial_state t root recursive))"
  unfolding queue_initial by (rule list.set_intros)

lemma children_queued:
  "recursive \<Longrightarrow> get_children t root = Some cs \<Longrightarrow> c \<in> set cs \<Longrightarrow>
     c \<in> set (queue (initial_state t root recursive))"
  by (simp add: queue_initial)

lemma visited_processed:
  assumes ret: "collect_loop lib t rt recursive (initial_state t root recursive) = Some (Inr fin)"
  shows "visited t rt recursive root c \<Longrightarrow>
     \<exists>s1 s2. visit lib t rt recursive c s1 = Inr s2 \<and> covered lib t rt recursive s2 fin"
proof (induction rule: visited.induct)
  case visited_root
  have "root \<in> set (queue (initial_state t root recursive))" by (rule root_queued)
  with collect_loop_covered[OF ret] show ?case by (rule covered_queue)
next
  case (visited_first cs c)
  then have "c \<in> set (queue (initial_state t root recursive))" by (simp add: children_queued)
  with collect_loop_covered[OF ret] show ?case by (rule covered_queue)
next
  case (visited_child p cs c)
  then obtain s1 s2 where v: "visit lib t rt recursive p s1 = Inr s2"
    and cov: "covered lib t rt recursive s2 fin" by blast
  from visit_enqueues[OF v visited_child.hyps(1,3,4)] visited_child.hyps(5)
  have "c \<in> set (queue s2)" by blast
  with cov show ?case by (rule covered_queue)
qed

lemma get_resource_list_Inr:
  assumes "get_resource_list lib t root rt recursive = Some (Inr ((p4, p6, asns), lg))"
  shows "\<exists>fin. collect_loop lib t rt recursive (initial_state t root recursive) = Some (Inr fin) \<and>
     p4 = pyt4 fin \<and> p6 = pyt6 fin \<and> asns = py_key ` set (asn_list fin) \<and> lg = log fin"
  using assms unfolding get_resource_list_def py_set_def
  by (auto split: option.splits sum.splits if_splits)


subsection \<open>Running the loop on the examples\<close>

lemma collect_loop_done:
  "queue st = [] \<Longrightarrow> collect_loop lib t rt recursive st = Some (Inr st)"
  by (subst collect_loop.simps) simp

lemma collect_loop_next:
  "queue st \<noteq> [] \<Longrightarrow>
   collect_loop lib t rt recursive st =
     (case visit lib t rt recursive (hd (queue st)) (st\<lparr>queue := tl (queue st), ctr := ctr st + 1\<rparr>) of
        Inl e \<Rightarrow> Some (Inl e)
      | Inr st' \<Rightarrow> collect_loop lib t rt recursive st')"
  by (subst collect_loop.simps) (simp split: list.splits)

lemma scenario_lookups:
  "get_data scenario_tree ''A'' = Some data_A"
  "get_data scenario_tree ''C'' = Some [(''type'', JStr ''ca_cert''), (''ski'', JStr ''C''), (''aki'', JStr ''R''),
                   (''subordinate_resources'', JList [JObj [(''ip_prefix'', JStr ''10.1.0.0/16'')]])]"
  "get_data scenario_tree ''R'' = Some [(''type'', JStr ''ca_cert''), (''ski'', JStr ''R''), (''tal'', JStr ''test''),
                   (''subordinate_resources'',
                      JList [JObj [(''ip_prefix'', JStr ''10.0.0.0/8'')], JObj [(''asid'', JInt 65000)]])]"
  "get_children scenario_tree ''A'' = None"
  "get_children scenario_tree ''C'' = Some [''A'']"
  "get_children scenario_tree ''R'' = Some [''C'']"
  by (simp_all add: scenario_tree_def insert_all_def insert_node_def init_tree_def Let_def
        get_data_def get_children_def)

lemma asn_tree_lookups:
  "get_data asn_tree ''X'' = Some data_X" "get_children asn_tree ''X'' = None"
  "get_data asn_tree ''R'' = Some [(''type'', JStr ''ca_cert''), (''ski'', JStr ''R''),
                   (''subordinate_resources'', JList [])]"
  "get_children asn_tree ''R'' = Some [''X'']"
  by (simp_all add: asn_tree_def insert_all_def insert_node_def init_tree_def Let_def
        get_data_def get_children_def)

lemma asn_tree_ranked: "children_ranked asn_tree asn_rank"
  unfolding children_ranked_def
  by (auto simp: asn_tree_def insert_all_def insert_node_def init_tree_def Let_def
        get_children_def asn_rank_def split: if_splits)

lemma asn_cycle_lookups:
  "get_data asn_cycle ''A'' = Some data_cyc" "get_data asn_cycle ''B'' = Some data_cyc"
  "get_children asn_cycle ''A'' = Some [''B'']" "get_children asn_cycle ''B'' = Some [''A'']"
  by (simp_all add: asn_cycle_def insert_all_def insert_node_def init_tree_def Let_def
        get_data_def get_children_def)

lemmas collect_eval =
  get_resource_list_def queue_initial initial_state_def collect_loop_done collect_loop_next
  visit_def extract_vrps_def extract_vrp_def extract_resources_def extract_resource_def
  extract_item_def store_results_def store_prefix_def example_lib_def py_set_def
  py_range_incl_def py_eq_JInt MAX_ASN_NUM_def

lemma scenario_roa_alone:
  "get_resource_list example_lib scenario_tree ''A'' ''all'' False
     = Some (Inr (([(JStr ''10.1.1.0/24'', ''A'')], [], {JInt 65001}), []))"
  by (simp add: collect_eval scenario_lookups data_A_def vrp_A_def)

lemma scenario_subtree:
  "get_resource_list example_lib scenario_tree ''R'' ''all'' True
     = Some (Inr (([(JStr ''10.0.0.0/8'', ''R''), (JStr ''10.1.0.0/16'', ''C''),
                    (JStr ''10.1.0.0/16'', ''C''), (JStr ''10.1.1.0/24'', ''A''),
                    (JStr ''10.1.1.0/24'', ''A'')], [], {JInt 65000, JInt 65001}), []))"
  by (simp add: collect_eval scenario_lookups data_A_def vrp_A_def)

lemma asn_tree_collect:
  "get_resource_list example_lib asn_tree ''R'' ''all'' True
     = Some (Inr (([], [], {JInt 64512, JInt 64513, JInt 64514}),
                  [LargeAsnRange (JInt 0) (JInt 4294967295),
                   LargeAsnRange (JInt 0) (JInt 4294967295)]))"
  by (simp add: collect_eval asn_tree_lookups data_X_def bounded_range_def ceiling_range_def)
     blast

subsection \<open>When the loop returns\<close>

text \<open>
  Without \<open>recursive\<close> the loop body adds nothing to the queue; with it, the body
  adds the children of the popped SKI. Under a ranking of the tree the weight of the
  queue falls with every turn, so the loop, and with it \<open>get_resource_list\<close>,
  returns: a result or an exception.
\<close>

lemma collect_loop_returns:
  assumes rk: "recursive \<longrightarrow> children_ranked t W"
  shows "\<exists>r. collect_loop lib t rt recursive st = Some r"
proof (induction "sum_list (map (\<lambda>c. Suc (W c)) (queue st))" arbitrary: st rule: less_induct)
  case less
  show ?case
  proof (cases "queue st")
    case Nil
    then show ?thesis by (simp add: collect_loop_done)
  next
    case (Cons c rest)
    let ?st0 = "st\<lparr>queue := rest, ctr := ctr st + 1\<rparr>"
    from Cons have step: "collect_loop lib t rt recursive st =
        (case visit lib t rt recursive c ?st0 of
           Inl e \<Rightarrow> Some (Inl e) | Inr st' \<Rightarrow> collect_loop lib t rt recursive st')"
      by (simp add: collect_loop_next)
    show ?thesis
    proof (cases "visit lib t rt recursive c ?st0")
      case (Inl e)
      with step show ?thesis by simp
    next
      case (Inr st')
      have "sum_list (map (\<lambda>c. Suc (W c)) (queue st')) \<le> sum_list (map (\<lambda>c. Suc (W c)) rest) + W c"
      proof (cases "recursive \<and> \<not> filtered_out t rt c")
        case False
        with visit_queue[OF Inr] show ?thesis by simp
      next
        case True
        show ?thesis
        proof (cases "get_children t c")
          case None
          with True visit_queue[OF Inr] show ?thesis by simp
        next
          case (Some cs)
          from True rk have "children_ranked t W" by simp
          with Some have "sum_list (map (\<lambda>c. Suc (W c)) cs) \<le> W c"
            unfolding children_ranked_def by blast
          moreover from True Some visit_queue[OF Inr] have "queue st' = rest @ cs" by simp
          ultimately show ?thesis by simp
        qed
      qed
      with Cons have "sum_list (map (\<lambda>c. Suc (W c)) (queue st'))
          < sum_list (map (\<lambda>c. Suc (W c)) (queue st))"
        by simp
      then have "\<exists>r. collect_loop lib t rt recursive st' = Some r" by (rule less)
      with step Inr show ?thesis by simp
    qed
  qed
qed

lemma get_resource_list_returns:
  assumes rk: "recursive \<longrightarrow> children_ranked t W"
  shows "\<exists>r. get_resource_list lib t root rt recursive = Some r"
proof -
  from collect_loop_returns[OF rk] obtain r where
    "collect_loop lib t rt recursive (initial_state t root recursive) = Some r" by blast
  then show ?thesis unfolding get_resource_list_def
    by (cases r) (simp_all split: sum.splits)
qed

text \<open>
  On the two CA certificates that name each other as parent the loop body puts the
  other SKI on the queue, so the queue never becomes empty and no call of the loop
  returns.
\<close>

lemma asn_cycle_visit:
  "\<exists>st'. visit example_lib asn_cycle ''all'' True ''A'' st = Inr st' \<and> queue st' = queue st @ [''B'']"
  "\<exists>st'. visit example_lib asn_cycle ''all'' True ''B'' st = Inr st' \<and> queue st' = queue st @ [''A'']"
  by (simp_all add: visit_def asn_cycle_lookups data_cyc_def bounded_range_def
        extract_resources_def extract_resource_def extract_item_def store_results_def
        py_range_incl_def py_eq_JInt MAX_ASN_NUM_def)

lemma asn_cycle_no_return:
  assumes ret: "collect_loop lib t rt recursive st = Some r"
  shows "\<not> (lib = example_lib \<and> t = asn_cycle \<and> rt = ''all'' \<and> recursive \<and>
            queue st \<noteq> [] \<and> set (queue st) \<subseteq> {''A'', ''B''})"
proof (rule collect_loop.raw_induct
    [where P = "\<lambda>lib t rt recursive st r.
       \<not> (lib = example_lib \<and> t = asn_cycle \<and> rt = ''all'' \<and> recursive \<and>
          queue st \<noteq> [] \<and> set (queue st) \<subseteq> {''A'', ''B''})", OF _ ret], goal_cases)
  case prems: (1 loop lib t rt recursive st r)
  note IH = prems(1) and body = prems(2)
  show ?case
  proof
    assume a: "lib = example_lib \<and> t = asn_cycle \<and> rt = ''all'' \<and> recursive \<and>
            queue st \<noteq> [] \<and> set (queue st) \<subseteq> {''A'', ''B''}"
    then obtain c rest where q: "queue st = c # rest" by (cases "queue st") auto
    let ?st0 = "st\<lparr>queue := rest, ctr := ctr st + 1\<rparr>"
    from a q have c: "c = ''A'' \<or> c = ''B''" and rest: "set rest \<subseteq> {''A'', ''B''}" by auto
    have "\<exists>st' d. visit example_lib asn_cycle ''all'' True c ?st0 = Inr st' \<and>
             queue st' = rest @ [d] \<and> (d = ''A'' \<or> d = ''B'')"
      using c asn_cycle_visit[of ?st0] by auto
    then obtain st' d where v: "visit example_lib asn_cycle ''all'' True c ?st0 = Inr st'"
      and q': "queue st' = rest @ [d]" and d: "d = ''A'' \<or> d = ''B''" by blast
    from body q v a have "loop example_lib asn_cycle ''all'' True st' = Some r" by simp
    from IH[OF this] q' d rest show False by auto
  qed
qed

subsection \<open>The claims about the aggregator\<close>

text \<open>
  C1, as stated, fails. \<open>extract_vrps\<close> appends each \<open>vrp["asid"]\<close> to the
  \<open>asn_list\<close> of the enclosing \<open>get_resource_list\<close>, so the origin ASN of a
  VRP is in the ASN set that is returned: collecting the ROA \<open>A\<close> of the scenario
  alone gives the ASN set \<open>{65001}\<close>.
\<close>

theorem roa_origin_asn_in_result:
  "get_data scenario_tree ''A'' = Some data_A \<and> map_of data_A ''type'' = Some (JStr ''roa'') \<and>
   map_of data_A ''vrps'' = Some (JList [vrp_A]) \<and> py_getitem vrp_A ''asid'' = Inr (JInt 65001) \<and>
   get_resource_list example_lib scenario_tree ''A'' ''all'' False
     = Some (Inr (([(JStr ''10.1.1.0/24'', ''A'')], [], {JInt 65001}), []))"
  by (simp add: scenario_roa_alone scenario_lookups) (simp add: data_A_def vrp_A_def)

text \<open>
  C1, amended. Whenever \<open>get_resource_list\<close> returns a result, for every node of
  type \<open>roa\<close> that it visits under a \<open>resource_type\<close> other than
  \<open>"ca_cert"\<close>, each of the node's VRPs has a \<open>prefix\<close> and an \<open>asid\<close>; the
  prefix, unless it is a default route, is assigned to the node's SKI in the IPv4 or
  the IPv6 trie, and the origin ASN is in the ASN set returned.
\<close>

theorem roa_vrp_collected:
  assumes ret: "get_resource_list lib t root rt recursive = Some (Inr ((p4, p6, asns), lg))"
    and vis: "visited t rt recursive root c"
    and data: "get_data t c = Some data" and roa: "map_of data ''type'' = Some (JStr ''roa'')"
    and rt: "rt \<noteq> ''ca_cert''"
    and vrps: "map_of data ''vrps'' = Some vrps" "py_iter vrps = Inr vs" and vrp: "vrp \<in> set vs"
  shows "\<exists>pfx asid. py_getitem vrp ''prefix'' = Inr pfx \<and> py_getitem vrp ''asid'' = Inr asid \<and>
           py_key asid \<in> asns \<and>
           (pfx = JStr ''0.0.0.0/0'' \<or> pfx = JStr ''::/0'' \<or> (pfx, c) \<in> set p4 \<union> set p6)"
proof -
  from get_resource_list_Inr[OF ret] obtain fin where
    loop: "collect_loop lib t rt recursive (initial_state t root recursive) = Some (Inr fin)"
    and res: "p4 = pyt4 fin" "p6 = pyt6 fin" "asns = py_key ` set (asn_list fin)" by blast
  from visited_processed[OF loop vis] obtain s1 s2 where
    v: "visit lib t rt recursive c s1 = Inr s2" and cov: "covered lib t rt recursive s2 fin" by blast
  from v have "\<exists>pfx asid. py_getitem vrp ''prefix'' = Inr pfx \<and> py_getitem vrp ''asid'' = Inr asid \<and>
      asid \<in> set (asn_list s2) \<and>
      (pfx = JStr ''0.0.0.0/0'' \<or> pfx = JStr ''::/0'' \<or> (pfx, c) \<in> stored (pyt4 s2, pyt6 s2))"
  proof (cases rule: visit_Inr)
    case skip
    with data roa rt show ?thesis by (simp add: filtered_out_def)
  next
    case (roa data' vrps' pfxs asns' outer)
    with data vrps have same: "vrps' = vrps" by simp
    from extract_vrps_result(3)[OF roa(5)[unfolded same] vrps(2) vrp] obtain pfx asid where
      pa: "py_getitem vrp ''prefix'' = Inr pfx" "py_getitem vrp ''asid'' = Inr asid"
        "pfx \<in> set pfxs" "asid \<in> set outer" by blast
    from store_results_result(3)[OF roa(6)] pa(4) have "asid \<in> set (asn_list s2)" by auto
    moreover from store_results_result(2)[OF roa(6) pa(3)]
    have "pfx = JStr ''0.0.0.0/0'' \<or> pfx = JStr ''::/0'' \<or> (pfx, c) \<in> stored (pyt4 s2, pyt6 s2)" .
    ultimately show ?thesis using pa(1,2) by blast
  next
    case (ca data' res pfxs asns' lg')
    with data roa show ?thesis by simp
  next
    case (other data' ty)
    with data roa show ?thesis by simp
  qed
  then obtain pfx asid where pa: "py_getitem vrp ''prefix'' = Inr pfx" "py_getitem vrp ''asid'' = Inr asid"
    "asid \<in> set (asn_list s2)"
    "pfx = JStr ''0.0.0.0/0'' \<or> pfx = JStr ''::/0'' \<or> (pfx, c) \<in> stored (pyt4 s2, pyt6 s2)" by blast
  from cov pa(3) res(3) have "py_key asid \<in> asns" unfolding covered_def by blast
  moreover from cov pa(4) res(1,2)
  have "pfx = JStr ''0.0.0.0/0'' \<or> pfx = JStr ''::/0'' \<or> (pfx, c) \<in> set p4 \<union> set p6"
    unfolding covered_def stored_def by auto
  ultimately show ?thesis using pa(1,2) by blast
qed

text \<open>The ROA \<open>A\<close> is reached from the root \<open>R\<close> through \<open>C\<close>.\<close>

lemma scenario_visits_A: "visited scenario_tree ''all'' True ''R'' ''A''"
proof -
  have c: "visited scenario_tree ''all'' True ''R'' ''C''"
    by (rule visited_first[where cs = "[''C'']"]) (simp_all add: scenario_lookups)
  show ?thesis
    by (rule visited_child[OF _ c, where cs = "[''A'']"])
       (simp_all add: scenario_lookups filtered_out_def)
qed

theorem roa_vrp_collected_witness:
  "get_resource_list example_lib scenario_tree ''R'' ''all'' True
     = Some (Inr (([(JStr ''10.0.0.0/8'', ''R''), (JStr ''10.1.0.0/16'', ''C''),
                    (JStr ''10.1.0.0/16'', ''C''), (JStr ''10.1.1.0/24'', ''A''),
                    (JStr ''10.1.1.0/24'', ''A'')], [], {JInt 65000, JInt 65001}), [])) \<and>
   visited scenario_tree ''all'' True ''R'' ''A'' \<and>
   get_data scenario_tree ''A'' = Some data_A \<and> map_of data_A ''type'' = Some (JStr ''roa'') \<and>
   ''all'' \<noteq> ''ca_cert'' \<and> map_of data_A ''vrps'' = Some (JList [vrp_A]) \<and>
   py_iter (JList [vrp_A]) = Inr [vrp_A] \<and> vrp_A \<in> set [vrp_A] \<and>
   (\<exists>pfx asid. py_getitem vrp_A ''prefix'' = Inr pfx \<and> py_getitem vrp_A ''asid'' = Inr asid \<and>
      py_key asid \<in> {JInt 65000, JInt 65001} \<and>
      (pfx = JStr ''0.0.0.0/0'' \<or> pfx = JStr ''::/0'' \<or>
       (pfx, ''A'') \<in> set [(JStr ''10.0.0.0/8'', ''R''), (JStr ''10.1.0.0/16'', ''C''),
                    (JStr ''10.1.0.0/16'', ''C''), (JStr ''10.1.1.0/24'', ''A''),
                    (JStr ''10.1.1.0/24'', ''A'')] \<union> set []))"
proof -
  have ty: "map_of data_A ''type'' = Some (JStr ''roa'')"
    and vr: "map_of data_A ''vrps'' = Some (JList [vrp_A])"
    by (simp_all add: data_A_def)
  have rt: "''all'' \<noteq> ''ca_cert''" by simp
  have it: "py_iter (JList [vrp_A]) = Inr [vrp_A]" and mem: "vrp_A \<in> set [vrp_A]" by simp_all
  from roa_vrp_collected[OF scenario_subtree scenario_visits_A scenario_lookups(1) ty rt vr it mem]
    scenario_subtree scenario_visits_A scenario_lookups(1) ty rt vr it mem
  show ?thesis by blast
qed

text \<open>
  C9, as stated, fails. On the two CA certificates \<open>A\<close> and \<open>B\<close> that name
  each other as parent, each with the ASN range 64512 to 64514, the first turn of the
  loop of \<open>get_resource_list("A", recursive=True)\<close> processes the range of
  \<open>A\<close> and appends its ASNs to \<open>asn_list\<close>, but the call does not return: no
  ASN is ever added to a result.
\<close>

theorem asrange_cycle_no_result:
  "get_data asn_cycle ''A'' = Some data_cyc \<and>
   map_of data_cyc ''type'' = Some (JStr ''ca_cert'') \<and>
   map_of data_cyc ''subordinate_resources'' = Some (JList [JObj [(''asrange'', bounded_range)]]) \<and>
   py_getitem bounded_range ''min'' = Inr (JInt 64512) \<and>
   py_getitem bounded_range ''max'' = Inr (JInt 64514) \<and>
   queue (initial_state asn_cycle ''A'' True) = [''A'', ''B''] \<and>
   visit example_lib asn_cycle ''all'' True ''A''
       ((initial_state asn_cycle ''A'' True)\<lparr>queue := [''B''], ctr := 1\<rparr>)
     = Inr \<lparr>queue = [''B'', ''B''], pyt4 = [], pyt6 = [],
            asn_list = [JInt 64512, JInt 64513, JInt 64514],
            curr_asn_list = Some [JInt 64512, JInt 64513, JInt 64514], ctr = 1, log = []\<rparr> \<and>
   get_resource_list example_lib asn_cycle ''A'' ''all'' True = None"
proof -
  have "collect_loop example_lib asn_cycle ''all'' True (initial_state asn_cycle ''A'' True) = None"
  proof (cases "collect_loop example_lib asn_cycle ''all'' True (initial_state asn_cycle ''A'' True)")
    case None
    then show ?thesis .
  next
    case (Some r)
    from asn_cycle_no_return[OF Some] show ?thesis
      by (simp add: queue_initial asn_cycle_lookups)
  qed
  then have none: "get_resource_list example_lib asn_cycle ''A'' ''all'' True = None"
    by (simp add: get_resource_list_def)
  have q: "queue (initial_state asn_cycle ''A'' True) = [''A'', ''B'']"
    by (simp add: queue_initial asn_cycle_lookups)
  have first: "visit example_lib asn_cycle ''all'' True ''A''
       ((initial_state asn_cycle ''A'' True)\<lparr>queue := [''B''], ctr := 1\<rparr>)
     = Inr \<lparr>queue = [''B'', ''B''], pyt4 = [], pyt6 = [],
            asn_list = [JInt 64512, JInt 64513, JInt 64514],
            curr_asn_list = Some [JInt 64512, JInt 64513, JInt 64514], ctr = 1, log = []\<rparr>"
    by (simp add: visit_def initial_state_def asn_cycle_lookups data_cyc_def bounded_range_def
          extract_resources_def extract_resource_def extract_item_def store_results_def
          py_range_incl_def py_eq_JInt MAX_ASN_NUM_def)
  have d: "map_of data_cyc ''type'' = Some (JStr ''ca_cert'')"
      "map_of data_cyc ''subordinate_resources'' = Some (JList [JObj [(''asrange'', bounded_range)]])"
      "py_getitem bounded_range ''min'' = Inr (JInt 64512)"
      "py_getitem bounded_range ''max'' = Inr (JInt 64514)"
    by (simp_all add: data_cyc_def bounded_range_def)
  from asn_cycle_lookups(1) d q first none show ?thesis by blast
qed

text \<open>
  C9, amended. For an \<open>asrange\<close> descriptor with bounds \<open>min\<close> and \<open>max\<close>:
  when \<open>max\<close> is 4294967295, processing it leaves the prefixes and the ASNs as they
  were and logs a warning; otherwise, with integer bounds, it appends every integer
  from \<open>min\<close> to \<open>max\<close> to the ASNs of the node. When
  \<open>get_resource_list\<close> visits, under a \<open>resource_type\<close> other than
  \<open>"roa"\<close>, a CA certificate that has such a descriptor, each of these integers is
  in the ASN set of the result, if the call returns one; and when \<open>recursive\<close> is
  false or the tree has a ranking of its children, the call does return, a result
  with each of these integers in its ASN set or an exception.
\<close>

theorem asrange_contribution:
  assumes v: "py_getitem v ''min'' = Inr lo" "py_getitem v ''max'' = Inr hi"
  shows "(py_num hi = Some MAX_ASN_NUM \<longrightarrow>
            extract_item lib r (''asrange'', v) (pl, al, lg)
              = Inr (pl, al, lg @ [LargeAsnRange lo hi])) \<and>
         (py_num lo = Some a \<and> py_num hi = Some b \<and> b \<noteq> MAX_ASN_NUM \<longrightarrow>
            extract_item lib r (''asrange'', v) (pl, al, lg) = Inr (pl, al @ map JInt [a..b], lg) \<and>
            (visited t rt recursive root c \<and> get_data t c = Some data \<and>
             map_of data ''type'' = Some (JStr ''ca_cert'') \<and> rt \<noteq> ''roa'' \<and>
             map_of data ''subordinate_resources'' = Some res \<and> py_iter res = Inr rs \<and>
             JObj kvs \<in> set rs \<and> (''asrange'', v) \<in> set kvs \<longrightarrow>
               (get_resource_list lib t root rt recursive = Some (Inr ((p4, p6, asns), lg')) \<longrightarrow>
                  (\<forall>x. a \<le> x \<and> x \<le> b \<longrightarrow> JInt x \<in> asns)) \<and>
               ((recursive \<longrightarrow> children_ranked t W) \<longrightarrow>
                  (\<exists>out. get_resource_list lib t root rt recursive = Some out \<and>
                     (\<forall>s4 s6 sa sl. out = Inr ((s4, s6, sa), sl) \<longrightarrow>
                        (\<forall>x. a \<le> x \<and> x \<le> b \<longrightarrow> JInt x \<in> sa))))))"
proof -
  have coll: "JInt x \<in> sa"
    if ret: "get_resource_list lib t root rt recursive = Some (Inr ((s4, s6, sa), sl))"
      and n: "py_num lo = Some a \<and> py_num hi = Some b \<and> b \<noteq> MAX_ASN_NUM"
      and h: "visited t rt recursive root c \<and> get_data t c = Some data \<and>
             map_of data ''type'' = Some (JStr ''ca_cert'') \<and> rt \<noteq> ''roa'' \<and>
             map_of data ''subordinate_resources'' = Some res \<and> py_iter res = Inr rs \<and>
             JObj kvs \<in> set rs \<and> (''asrange'', v) \<in> set kvs"
      and x: "a \<le> x \<and> x \<le> b"
    for s4 s6 sa sl x
  proof -
    from ret get_resource_list_Inr obtain fin where
      loop: "collect_loop lib t rt recursive (initial_state t root recursive) = Some (Inr fin)"
      and res: "sa = py_key ` set (asn_list fin)" by blast
    from h have vis: "visited t rt recursive root c" by blast
    from visited_processed[OF loop vis] obtain s1 s2 where
      vs: "visit lib t rt recursive c s1 = Inr s2" and cov: "covered lib t rt recursive s2 fin" by blast
    from vs have "JInt x \<in> set (asn_list s2)"
    proof (cases rule: visit_Inr)
      case skip
      with h show ?thesis by (simp add: filtered_out_def)
    next
      case (roa data' vrps pfxs asns' outer)
      with h show ?thesis by simp
    next
      case (ca data' res' pfxs asns' lg'')
      with h have same: "res' = res" by simp
      from h n x have "JInt x \<in> set asns'"
        using extract_resources_asrange[OF ca(5)[unfolded same] _ _ _ v, of rs kvs a b x] by blast
      with store_results_result(3)[OF ca(6)] show ?thesis by auto
    next
      case (other data' ty)
      with h show ?thesis by simp
    qed
    with cov have "JInt x \<in> set (asn_list fin)" unfolding covered_def by blast
    then have "py_key (JInt x) \<in> sa" unfolding res by (rule imageI)
    then show "JInt x \<in> sa" by simp
  qed
  show ?thesis
  proof (intro conjI impI allI)
    assume "py_num hi = Some MAX_ASN_NUM"
    with v show "extract_item lib r (''asrange'', v) (pl, al, lg) = Inr (pl, al, lg @ [LargeAsnRange lo hi])"
      by (rule extract_item_asrange_max)
  next
    assume "py_num lo = Some a \<and> py_num hi = Some b \<and> b \<noteq> MAX_ASN_NUM"
    then show "extract_item lib r (''asrange'', v) (pl, al, lg) = Inr (pl, al @ map JInt [a..b], lg)"
      using v by (simp add: extract_item_asrange_expand)
  next
    fix x
    assume n: "py_num lo = Some a \<and> py_num hi = Some b \<and> b \<noteq> MAX_ASN_NUM"
      and h: "visited t rt recursive root c \<and> get_data t c = Some data \<and>
             map_of data ''type'' = Some (JStr ''ca_cert'') \<and> rt \<noteq> ''roa'' \<and>
             map_of data ''subordinate_resources'' = Some res \<and> py_iter res = Inr rs \<and>
             JObj kvs \<in> set rs \<and> (''asrange'', v) \<in> set kvs"
      and ret: "get_resource_list lib t root rt recursive = Some (Inr ((p4, p6, asns), lg'))"
      and x: "a \<le> x \<and> x \<le> b"
    from ret n h x show "JInt x \<in> asns" by (rule coll)
  next
    assume n: "py_num lo = Some a \<and> py_num hi = Some b \<and> b \<noteq> MAX_ASN_NUM"
      and h: "visited t rt recursive root c \<and> get_data t c = Some data \<and>
             map_of data ''type'' = Some (JStr ''ca_cert'') \<and> rt \<noteq> ''roa'' \<and>
             map_of data ''subordinate_resources'' = Some res \<and> py_iter res = Inr rs \<and>
             JObj kvs \<in> set rs \<and> (''asrange'', v) \<in> set kvs"
      and rk: "recursive \<longrightarrow> children_ranked t W"
    from get_resource_list_returns[OF rk] obtain out where
      out: "get_resource_list lib t root rt recursive = Some out" by blast
    have "\<forall>s4 s6 sa sl. out = Inr ((s4, s6, sa), sl) \<longrightarrow>
            (\<forall>x. a \<le> x \<and> x \<le> b \<longrightarrow> JInt x \<in> sa)"
    proof (intro allI impI)
      fix s4 s6 sa sl x
      assume e: "out = Inr ((s4, s6, sa), sl)" and x: "a \<le> x \<and> x \<le> b"
      from out e have "get_resource_list lib t root rt recursive = Some (Inr ((s4, s6, sa), sl))"
        by simp
      from this n h x show "JInt x \<in> sa" by (rule coll)
    qed
    with out show "\<exists>out. get_resource_list lib t root rt recursive = Some out \<and>
                     (\<forall>s4 s6 sa sl. out = Inr ((s4, s6, sa), sl) \<longrightarrow>
                        (\<forall>x. a \<le> x \<and> x \<le> b \<longrightarrow> JInt x \<in> sa))" by blast
  qed
qed

theorem asrange_contribution_witness:
  "py_getitem ceiling_range ''min'' = Inr (JInt 0) \<and>
   py_getitem ceiling_range ''max'' = Inr (JInt 4294967295) \<and>
   py_num (JInt 4294967295) = Some MAX_ASN_NUM \<and>
   extract_item example_lib (JObj [(''asrange'', ceiling_range)]) (''asrange'', ceiling_range)
       ([], [JInt 7], [])
     = Inr ([], [JInt 7], [LargeAsnRange (JInt 0) (JInt 4294967295)]) \<and>
   py_getitem bounded_range ''min'' = Inr (JInt 64512) \<and>
   py_getitem bounded_range ''max'' = Inr (JInt 64514) \<and>
   extract_item example_lib (JObj [(''asrange'', bounded_range)]) (''asrange'', bounded_range)
       ([], [JInt 7], [])
     = Inr ([], [JInt 7, JInt 64512, JInt 64513, JInt 64514], []) \<and>
   children_ranked asn_tree asn_rank \<and>
   visited asn_tree ''all'' True ''R'' ''X'' \<and>
   get_data asn_tree ''X'' = Some data_X \<and>
   (\<exists>p4 p6 asns lg. get_resource_list example_lib asn_tree ''R'' ''all'' True
        = Some (Inr ((p4, p6, asns), lg)) \<and>
      JInt 64512 \<in> asns \<and> JInt 64513 \<in> asns \<and> JInt 64514 \<in> asns)"
proof -
  have c: "py_getitem ceiling_range ''min'' = Inr (JInt 0)"
      "py_getitem ceiling_range ''max'' = Inr (JInt 4294967295)"
    by (simp_all add: ceiling_range_def)
  have b: "py_getitem bounded_range ''min'' = Inr (JInt 64512)"
      "py_getitem bounded_range ''max'' = Inr (JInt 64514)"
    by (simp_all add: bounded_range_def)
  have m: "py_num (JInt 4294967295) = Some MAX_ASN_NUM" by (simp add: MAX_ASN_NUM_def)
  have n: "py_num (JInt 64512) = Some 64512 \<and> py_num (JInt 64514) = Some 64514 \<and>
           (64514::int) \<noteq> MAX_ASN_NUM"
    by (simp add: MAX_ASN_NUM_def)
  have vis: "visited asn_tree ''all'' True ''R'' ''X''"
    by (rule visited_first[OF _ asn_tree_lookups(4)]) simp_all
  have d: "map_of data_X ''type'' = Some (JStr ''ca_cert'')"
      "map_of data_X ''subordinate_resources''
         = Some (JList [JObj [(''asrange'', bounded_range)], JObj [(''asrange'', ceiling_range)]])"
      "py_iter (JList [JObj [(''asrange'', bounded_range)], JObj [(''asrange'', ceiling_range)]])
         = Inr [JObj [(''asrange'', bounded_range)], JObj [(''asrange'', ceiling_range)]]"
    by (simp_all add: data_X_def)
  have ceil: "extract_item example_lib (JObj [(''asrange'', ceiling_range)]) (''asrange'', ceiling_range)
       ([], [JInt 7], [])
     = Inr ([], [JInt 7], [LargeAsnRange (JInt 0) (JInt 4294967295)])"
    using asrange_contribution[OF c, where lib = example_lib and pl = "[]" and al = "[JInt 7]"
        and lg = "[]" and r = "JObj [(''asrange'', ceiling_range)]"] m
    by simp
  note bounded = asrange_contribution[OF b, where lib = example_lib and pl = "[]"
        and al = "[JInt 7]" and lg = "[]" and r = "JObj [(''asrange'', bounded_range)]"
        and a = 64512 and b = 64514 and t = asn_tree and rt = "''all''" and recursive = True
        and root = "''R''" and c = "''X''" and data = data_X and W = asn_rank
        and res = "JList [JObj [(''asrange'', bounded_range)], JObj [(''asrange'', ceiling_range)]]"
        and rs = "[JObj [(''asrange'', bounded_range)], JObj [(''asrange'', ceiling_range)]]"
        and kvs = "[(''asrange'', bounded_range)]"]
  from bounded n have bnd: "extract_item example_lib (JObj [(''asrange'', bounded_range)])
       (''asrange'', bounded_range) ([], [JInt 7], [])
     = Inr ([], [JInt 7, JInt 64512, JInt 64513, JInt 64514], [])"
    by simp
  have h: "visited asn_tree ''all'' True ''R'' ''X'' \<and> get_data asn_tree ''X'' = Some data_X \<and>
       map_of data_X ''type'' = Some (JStr ''ca_cert'') \<and> ''all'' \<noteq> ''roa'' \<and>
       map_of data_X ''subordinate_resources''
         = Some (JList [JObj [(''asrange'', bounded_range)], JObj [(''asrange'', ceiling_range)]]) \<and>
       py_iter (JList [JObj [(''asrange'', bounded_range)], JObj [(''asrange'', ceiling_range)]])
         = Inr [JObj [(''asrange'', bounded_range)], JObj [(''asrange'', ceiling_range)]] \<and>
       JObj [(''asrange'', bounded_range)]
         \<in> set [JObj [(''asrange'', bounded_range)], JObj [(''asrange'', ceiling_range)]] \<and>
       (''asrange'', bounded_range) \<in> set [(''asrange'', bounded_range)]"
    using vis asn_tree_lookups(1) d by simp
  from bounded n h asn_tree_ranked obtain out where
    out: "get_resource_list example_lib asn_tree ''R'' ''all'' True = Some out"
    and all: "\<forall>s4 s6 sa sl. out = Inr ((s4, s6, sa), sl) \<longrightarrow>
                (\<forall>x. 64512 \<le> x \<and> x \<le> 64514 \<longrightarrow> JInt x \<in> sa)"
    by blast
  from out asn_tree_collect have "out = Inr (([], [], {JInt 64512, JInt 64513, JInt 64514}),
        [LargeAsnRange (JInt 0) (JInt 4294967295), LargeAsnRange (JInt 0) (JInt 4294967295)])"
    by simp
  with all have "JInt 64512 \<in> {JInt 64512, JInt 64513, JInt 64514} \<and>
      JInt 64513 \<in> {JInt 64512, JInt 64513, JInt 64514::json} \<and>
      JInt 64514 \<in> {JInt 64512, JInt 64513, JInt 64514::json}" by simp
  with asn_tree_collect have res: "\<exists>p4 p6 asns lg. get_resource_list example_lib asn_tree ''R'' ''all'' True
        = Some (Inr ((p4, p6, asns), lg)) \<and>
      JInt 64512 \<in> asns \<and> JInt 64513 \<in> asns \<and> JInt 64514 \<in> asns" by blast
  from c b m ceil bnd asn_tree_ranked vis asn_tree_lookups(1) res show ?thesis by blast
qed

text \<open>
  C10. \<open>get_resource_list\<close> copies the data of the popped SKI before it tests the
  data against \<open>None\<close>, so the test never skips anything: called on a root without
  node data it raises (\<open>AttributeError\<close>), for every \<open>resource_type\<close> and either
  value of \<open>recursive\<close>.
\<close>

theorem collect_missing_data_raises:
  assumes "get_data t root = None"
  shows "get_resource_list lib t root rt recursive = Some (Inl AttributeError)"
proof -
  have "collect_loop lib t rt recursive (initial_state t root recursive) = Some (Inl AttributeError)"
    using assms by (subst collect_loop.simps) (simp add: queue_initial visit_def split del: if_split)
  then show ?thesis by (simp add: get_resource_list_def)
qed

theorem collect_missing_data_raises_witness:
  "get_data scenario_tree ''Z'' = None \<and>
   get_resource_list example_lib scenario_tree ''Z'' ''all'' True = Some (Inl AttributeError) \<and>
   get_resource_list example_lib scenario_tree ''Z'' ''roa'' False = Some (Inl AttributeError)"
proof -
  have z: "get_data scenario_tree ''Z'' = None"
    by (simp add: scenario_tree_def insert_all_def insert_node_def init_tree_def Let_def get_data_def)
  from collect_missing_data_raises[OF z, of example_lib "''all''" True]
    collect_missing_data_raises[OF z, of example_lib "''roa''" False] z
  show ?thesis by simp
qed

section \<open>Properties of the CIDR range normaliser\<close>

lemma largest_block_le: "largest_block f l k \<le> k"
  by (induction k) auto

lemma largest_block_fits:
  "f \<le> l \<Longrightarrow> 2 ^ largest_block f l k dvd f \<and> f + 2 ^ largest_block f l k - 1 \<le> l"
  by (induction k) auto

lemma largest_block_max:
  "m \<le> k \<Longrightarrow> 2 ^ m dvd f \<Longrightarrow> f + 2 ^ m - 1 \<le> l \<Longrightarrow> m \<le> largest_block f l k"
proof (induction k)
  case 0
  then show ?case by simp
next
  case (Suc k)
  show ?case
  proof (cases "m = Suc k")
    case True
    with Suc.prems show ?thesis by simp
  next
    case False
    with Suc.prems have "m \<le> k" by simp
    from Suc.IH[OF this Suc.prems(2,3)] have "m \<le> largest_block f l k" .
    moreover have "largest_block f l k \<le> largest_block f l (Suc k)"
      using largest_block_le[of f l k] by simp
    ultimately show ?thesis by simp
  qed
qed

lemma summarize_step:
  "f \<le> l \<Longrightarrow> summarize_address_range f l =
     (f, 32 - largest_block f l 32) # summarize_address_range (f + 2 ^ largest_block f l 32) l"
  by (subst summarize_address_range.simps) (simp add: Let_def)

lemma summarize_empty: "\<not> f \<le> l \<Longrightarrow> summarize_address_range f l = []"
  by (subst summarize_address_range.simps) simp

lemma first_block_addrs:
  "cidr_addrs (f, 32 - largest_block f l 32) = {f ..< f + 2 ^ largest_block f l 32}"
  using largest_block_le[of f l 32] by (simp add: cidr_addrs_def)

lemma summarize_cover:
  "(\<Union>net \<in> set (summarize_address_range f l). cidr_addrs net) = {f..l}"
proof (induction f l rule: summarize_address_range.induct)
  case (1 f l)
  show ?case
  proof (cases "f \<le> l")
    case False
    then show ?thesis by (simp add: summarize_empty)
  next
    case True
    let ?n = "largest_block f l 32"
    from "1.IH"[OF True refl]
    have IH: "(\<Union>net \<in> set (summarize_address_range (f + 2 ^ ?n) l). cidr_addrs net) = {f + 2 ^ ?n..l}" .
    from largest_block_fits[OF True, of 32] have fit: "f + 2 ^ ?n - 1 \<le> l" by simp
    have pos: "(0::nat) < 2 ^ ?n" by simp
    have "{f ..< f + 2 ^ ?n} \<union> {f + 2 ^ ?n..l} = {f..l}"
      using fit pos by auto
    then show ?thesis
      by (simp add: summarize_step[OF True] first_block_addrs IH)
  qed
qed

lemma summarize_lower:
  "net \<in> set (summarize_address_range f l) \<Longrightarrow> f \<le> fst net"
proof (induction f l rule: summarize_address_range.induct)
  case (1 f l)
  show ?case
  proof (cases "f \<le> l")
    case False
    with "1.prems" show ?thesis by (simp add: summarize_empty)
  next
    case True
    let ?n = "largest_block f l 32"
    from "1.prems" have "net = (f, 32 - ?n) \<or> net \<in> set (summarize_address_range (f + 2 ^ ?n) l)"
      by (simp add: summarize_step[OF True])
    then show ?thesis
    proof
      assume "net = (f, 32 - ?n)"
      then show ?thesis by simp
    next
      assume "net \<in> set (summarize_address_range (f + 2 ^ ?n) l)"
      from "1.IH"[OF True refl this] show ?thesis by simp
    qed
  qed
qed

lemma summarize_sorted:
  "sorted_wrt (\<lambda>x y. fst x + 2 ^ (32 - snd x) \<le> fst y) (summarize_address_range f l)"
proof (induction f l rule: summarize_address_range.induct)
  case (1 f l)
  show ?case
  proof (cases "f \<le> l")
    case False
    then show ?thesis by (simp add: summarize_empty)
  next
    case True
    let ?n = "largest_block f l 32"
    have n: "32 - (32 - ?n) = ?n" using largest_block_le[of f l 32] by simp
    from "1.IH"[OF True refl]
    have IH: "sorted_wrt (\<lambda>x y. fst x + 2 ^ (32 - snd x) \<le> fst y)
                (summarize_address_range (f + 2 ^ ?n) l)" .
    have "\<forall>net \<in> set (summarize_address_range (f + 2 ^ ?n) l). f + 2 ^ ?n \<le> fst net"
      using summarize_lower by blast
    with IH show ?thesis
      by (simp add: summarize_step[OF True] n)
  qed
qed

lemma summarize_valid:
  "l < 2 ^ 32 \<Longrightarrow> net \<in> set (summarize_address_range f l) \<Longrightarrow> valid_cidr net"
proof (induction f l rule: summarize_address_range.induct)
  case (1 f l)
  show ?case
  proof (cases "f \<le> l")
    case False
    with "1.prems" show ?thesis by (simp add: summarize_empty)
  next
    case True
    let ?n = "largest_block f l 32"
    have n: "32 - (32 - ?n) = ?n" using largest_block_le[of f l 32] by simp
    from largest_block_fits[OF True, of 32]
    have fit: "2 ^ ?n dvd f" "f + 2 ^ ?n - 1 \<le> l" by simp_all
    from "1.prems" have "net = (f, 32 - ?n) \<or> net \<in> set (summarize_address_range (f + 2 ^ ?n) l)"
      by (simp add: summarize_step[OF True])
    then show ?thesis
    proof
      assume net: "net = (f, 32 - ?n)"
      have "f + 2 ^ ?n \<le> 2 ^ 32" using fit(2) "1.prems"(1) by simp
      with fit(1) show ?thesis by (simp add: net valid_cidr_def n)
    next
      assume "net \<in> set (summarize_address_range (f + 2 ^ ?n) l)"
      from "1.IH"[OF True refl "1.prems"(1) this] show ?thesis .
    qed
  qed
qed

subsection \<open>Minimality\<close>

lemma multiple_step:
  assumes "d dvd x" "d dvd y" "x < y"
  shows "x + d \<le> (y::nat)"
proof -
  from assms obtain i j where x: "x = d * i" and y: "y = d * j" by (auto elim!: dvdE)
  with assms(3) have "i < j" by (metis mult_less_cancel1)
  then have "Suc i \<le> j" by simp
  then have "d * Suc i \<le> d * j" by (rule mult_le_mono2)
  with x y show ?thesis by simp
qed

lemma multiple_same:
  assumes "d dvd x" "d dvd y" "x \<le> y" "y < x + d"
  shows "y = (x::nat)"
proof (rule ccontr)
  assume "y \<noteq> x"
  with assms(3) have "x < y" by simp
  from multiple_step[OF assms(1,2) this] assms(4) show False by simp
qed

text \<open>
  A CIDR block inside the range lies inside the first block of the summary or apart
  from it.
\<close>

lemma block_inside_or_apart:
  assumes fl: "f \<le> l" and v: "valid_cidr c" and sub: "cidr_addrs c \<subseteq> {f..l}"
  shows "cidr_addrs c \<subseteq> {f ..< f + 2 ^ largest_block f l 32} \<or>
         cidr_addrs c \<inter> {f ..< f + 2 ^ largest_block f l 32} = {}"
proof -
  let ?n = "largest_block f l 32"
  obtain p k where c: "c = (p, k)" by (cases c)
  let ?m = "32 - k"
  from v c have m: "?m \<le> 32" and dv: "2 ^ ?m dvd p" by (simp_all add: valid_cidr_def)
  have addrs: "cidr_addrs c = {p ..< p + 2 ^ ?m}" by (simp add: c cidr_addrs_def)
  have pos: "(0::nat) < 2 ^ ?m" by simp
  from sub addrs pos have fp: "f \<le> p" by (auto simp: subset_iff)
  have "p \<le> p + 2 ^ ?m - 1 \<and> p + 2 ^ ?m - 1 < p + 2 ^ ?m" using pos by arith
  then have "p + 2 ^ ?m - 1 \<in> {p ..< p + 2 ^ ?m}" by simp
  with sub have "p + 2 ^ ?m - 1 \<in> {f..l}" unfolding addrs by (rule subsetD)
  then have pl: "p + 2 ^ ?m - 1 \<le> l" by simp
  from largest_block_fits[OF fl, of 32] have fit: "2 ^ ?n dvd f" by simp
  show ?thesis
  proof (cases "p < f + 2 ^ ?n")
    case False
    then show ?thesis unfolding addrs by auto
  next
    case True
    show ?thesis
    proof (cases "?m \<le> ?n")
      case le: True
      then have pw: "(2::nat) ^ ?m dvd 2 ^ ?n" by (rule le_imp_power_dvd)
      from pw fit have "2 ^ ?m dvd f" by (rule dvd_trans)
      from this pw have "2 ^ ?m dvd f + 2 ^ ?n" by (rule dvd_add)
      from multiple_step[OF dv this True] have "p + 2 ^ ?m \<le> f + 2 ^ ?n" .
      with fp show ?thesis unfolding addrs by auto
    next
      case gt: False
      then have "?n \<le> ?m" by simp
      then have "(2::nat) ^ ?n dvd 2 ^ ?m" by (rule le_imp_power_dvd)
      then have "2 ^ ?n dvd p" using dv by (rule dvd_trans)
      from multiple_same[OF fit this fp True] have pf: "p = f" .
      from largest_block_max[OF m dv[unfolded pf] pl[unfolded pf]] have "?m \<le> ?n" .
      with gt show ?thesis by simp
    qed
  qed
qed

lemma summarize_minimal:
  "(\<forall>c \<in> set cs. valid_cidr c) \<Longrightarrow> (\<Union>c \<in> set cs. cidr_addrs c) = {f..l} \<Longrightarrow>
     length (summarize_address_range f l) \<le> length cs"
proof (induction f l arbitrary: cs rule: summarize_address_range.induct)
  case (1 f l)
  show ?case
  proof (cases "f \<le> l")
    case False
    then show ?thesis by (simp add: summarize_empty)
  next
    case True
    let ?n = "largest_block f l 32"
    let ?B = "{f ..< f + 2 ^ ?n}"
    let ?cs' = "filter (\<lambda>c. cidr_addrs c \<inter> ?B = {}) cs"
    from largest_block_fits[OF True, of 32] have fit: "f + 2 ^ ?n - 1 \<le> l" by simp
    have pos: "(0::nat) < 2 ^ ?n" by simp
    have sub: "cidr_addrs c \<subseteq> {f..l}" if "c \<in> set cs" for c
      using that "1.prems"(2) by blast
    have lam: "cidr_addrs c \<subseteq> ?B \<or> cidr_addrs c \<inter> ?B = {}" if "c \<in> set cs" for c
      using block_inside_or_apart[OF True _ sub[OF that]] that "1.prems"(1) by blast
    have valid': "\<forall>c \<in> set ?cs'. valid_cidr c" using "1.prems"(1) by simp
    have cover': "(\<Union>c \<in> set ?cs'. cidr_addrs c) = {f + 2 ^ ?n..l}"
    proof (intro equalityI subsetI)
      fix x assume "x \<in> (\<Union>c \<in> set ?cs'. cidr_addrs c)"
      then obtain c where c: "c \<in> set cs" "cidr_addrs c \<inter> ?B = {}" "x \<in> cidr_addrs c" by auto
      from sub[OF c(1)] c(3) have "f \<le> x" "x \<le> l" by auto
      moreover from c(2,3) have "x \<notin> ?B" by blast
      ultimately show "x \<in> {f + 2 ^ ?n..l}" by auto
    next
      fix x assume x: "x \<in> {f + 2 ^ ?n..l}"
      then have "x \<in> {f..l}" by auto
      with "1.prems"(2) obtain c where c: "c \<in> set cs" "x \<in> cidr_addrs c" by blast
      from x have "x \<notin> ?B" by auto
      with c(2) lam[OF c(1)] have "cidr_addrs c \<inter> ?B = {}" by blast
      with c have "c \<in> set ?cs'" by simp
      then show "x \<in> (\<Union>c \<in> set ?cs'. cidr_addrs c)" using c(2) by (rule UN_I)
    qed
    from "1.IH"[OF True refl valid' cover']
    have IH: "length (summarize_address_range (f + 2 ^ ?n) l) \<le> length ?cs'" .
    from True have "f \<in> {f..l}" by simp
    with "1.prems"(2) obtain c0 where c0: "c0 \<in> set cs" "f \<in> cidr_addrs c0" by blast
    have "f \<in> ?B" using pos by simp
    with c0(2) have "\<not> cidr_addrs c0 \<inter> ?B = {}" by blast
    with c0(1) have "length ?cs' < length cs" by (rule length_filter_less)
    with IH show ?thesis by (simp add: summarize_step[OF True])
  qed
qed

subsection \<open>Text in, text out\<close>

lemma parse_octet_bound: "parse_octet s = Some v \<Longrightarrow> v \<le> 255"
  by (auto simp: parse_octet_def Let_def split: if_splits)

lemma ip_address_bound:
  assumes "ip_address s = Some a"
  shows "a < 2 ^ 32"
proof -
  from assms obtain o1 o2 o3 o4 where
    ps: "map parse_octet (split_on CHR ''.'' s) = [Some o1, Some o2, Some o3, Some o4]"
    and a: "a = o1 * 2 ^ 24 + o2 * 2 ^ 16 + o3 * 2 ^ 8 + o4"
    by (auto simp: ip_address_def split: list.splits option.splits)
  from ps obtain s1 s2 s3 s4 where "parse_octet s1 = Some o1" "parse_octet s2 = Some o2"
      "parse_octet s3 = Some o3" "parse_octet s4 = Some o4"
    by (auto simp: map_eq_Cons_conv)
  then have "o1 \<le> 255" "o2 \<le> 255" "o3 \<le> 255" "o4 \<le> 255"
    by (auto dest: parse_octet_bound)
  then show ?thesis unfolding a by simp
qed

lemma largest_block_numeral:
  "largest_block f l (numeral k) =
     (if 2 ^ numeral k dvd f \<and> f + 2 ^ numeral k - 1 \<le> l then numeral k
      else largest_block f l (pred_numeral k))"
  by (simp add: numeral_eq_Suc)

lemma largest_block_one:
  "largest_block f l 1 = (if 2 dvd f \<and> f + 2 - 1 \<le> l then 1 else 0)"
  using largest_block.simps(2)[of f l 0] by simp

lemmas cidr_eval =
  get_cidr_def ip_address_def parse_octet_def dec_digit_def summarize_step summarize_empty
  largest_block_numeral largest_block_one str_network_def str_nat.simps

lemma get_cidr_examples:
  "get_cidr ''10.0.0.0'' ''10.0.0.255'' = Inr [''10.0.0.0/24'']"
  "get_cidr ''10.0.0.1'' ''10.0.0.2'' = Inr [''10.0.0.1/32'', ''10.0.0.2/32'']"
  by (simp_all add: cidr_eval)

text \<open>
  C8. For IPv4 text \<open>start_ip\<close> and \<open>end_ip\<close> with \<open>start_ip\<close> not above
  \<open>end_ip\<close>, \<open>get_cidr\<close> returns the text of a list of CIDR blocks that are
  valid, cover exactly the addresses from \<open>start_ip\<close> to \<open>end_ip\<close>, are in
  ascending order without overlap, and are as few as any list of CIDR blocks with that
  union; the range 10.0.0.0 - 10.0.0.255 gives \<open>10.0.0.0/24\<close> and the range
  10.0.0.1 - 10.0.0.2 gives \<open>10.0.0.1/32\<close>, \<open>10.0.0.2/32\<close>.
\<close>

theorem get_cidr_minimal_cover:
  assumes s: "ip_address start_ip = Some a" and e: "ip_address end_ip = Some b" and le: "a \<le> b"
  shows "get_cidr start_ip end_ip = Inr (map str_network (summarize_address_range a b)) \<and>
         (\<forall>net \<in> set (summarize_address_range a b). valid_cidr net) \<and>
         (\<Union>net \<in> set (summarize_address_range a b). cidr_addrs net) = {a..b} \<and>
         sorted_wrt (\<lambda>x y. fst x + 2 ^ (32 - snd x) \<le> fst y) (summarize_address_range a b) \<and>
         (\<forall>nets. (\<forall>net \<in> set nets. valid_cidr net) \<and>
                 (\<Union>net \<in> set nets. cidr_addrs net) = {a..b} \<longrightarrow>
                 length (summarize_address_range a b) \<le> length nets) \<and>
         get_cidr ''10.0.0.0'' ''10.0.0.255'' = Inr [''10.0.0.0/24''] \<and>
         get_cidr ''10.0.0.1'' ''10.0.0.2'' = Inr [''10.0.0.1/32'', ''10.0.0.2/32'']"
proof (intro conjI)
  from s e le show "get_cidr start_ip end_ip = Inr (map str_network (summarize_address_range a b))"
    by (simp add: get_cidr_def)
  from ip_address_bound[OF e] show "\<forall>net \<in> set (summarize_address_range a b). valid_cidr net"
    using summarize_valid by blast
  show "(\<Union>net \<in> set (summarize_address_range a b). cidr_addrs net) = {a..b}"
    by (rule summarize_cover)
  show "sorted_wrt (\<lambda>x y. fst x + 2 ^ (32 - snd x) \<le> fst y) (summarize_address_range a b)"
    by (rule summarize_sorted)
  show "\<forall>nets. (\<forall>net \<in> set nets. valid_cidr net) \<and>
                 (\<Union>net \<in> set nets. cidr_addrs net) = {a..b} \<longrightarrow>
                 length (summarize_address_range a b) \<le> length nets"
    using summarize_minimal by blast
  show "get_cidr ''10.0.0.0'' ''10.0.0.255'' = Inr [''10.0.0.0/24'']"
    by (rule get_cidr_examples(1))
  show "get_cidr ''10.0.0.1'' ''10.0.0.2'' = Inr [''10.0.0.1/32'', ''10.0.0.2/32'']"
    by (rule get_cidr_examples(2))
qed

theorem get_cidr_minimal_cover_witness:
  "ip_address ''10.0.0.1'' = Some 167772161 \<and> ip_address ''10.0.0.6'' = Some 167772166 \<and>
   (167772161::nat) \<le> 167772166 \<and>
   get_cidr ''10.0.0.1'' ''10.0.0.6''
     = Inr (map str_network (summarize_address_range 167772161 167772166)) \<and>
   (\<Union>net \<in> set (summarize_address_range 167772161 167772166). cidr_addrs net)
     = {167772161..167772166} \<and>
   summarize_address_range 167772161 167772166
     = [(167772161, 32), (167772162, 31), (167772164, 31), (167772166, 32)] \<and>
   get_cidr ''10.0.0.1'' ''10.0.0.6''
     = Inr [''10.0.0.1/32'', ''10.0.0.2/31'', ''10.0.0.4/31'', ''10.0.0.6/32'']"
proof -
  have s: "ip_address ''10.0.0.1'' = Some 167772161"
    and e: "ip_address ''10.0.0.6'' = Some 167772166"
    by (simp_all add: ip_address_def parse_octet_def dec_digit_def)
  have le: "(167772161::nat) \<le> 167772166" by simp
  note T = get_cidr_minimal_cover[OF s e le]
  have c1: "get_cidr ''10.0.0.1'' ''10.0.0.6''
     = Inr (map str_network (summarize_address_range 167772161 167772166))"
    by (rule T[THEN conjunct1])
  have c2: "(\<Union>net \<in> set (summarize_address_range 167772161 167772166). cidr_addrs net)
     = {167772161..167772166}"
    by (rule T[THEN conjunct2, THEN conjunct2, THEN conjunct1])
  have l: "summarize_address_range 167772161 167772166
     = [(167772161, 32), (167772162, 31), (167772164, 31), (167772166, 32)]"
    by (simp add: summarize_step summarize_empty largest_block_numeral largest_block_one)
  have g: "get_cidr ''10.0.0.1'' ''10.0.0.6''
     = Inr [''10.0.0.1/32'', ''10.0.0.2/31'', ''10.0.0.4/31'', ''10.0.0.6/32'']"
    unfolding c1 l by (simp add: str_network_def str_nat.simps)
  from s e le c1 c2 l g show ?thesis by (intro conjI)
qed

end
